theory Spec2Isabelle
  imports Complex_Main "HOL-Library.Word"
begin

chapter \<open>The embedding\<close>

text \<open>
  The application is a React front end written in TypeScript. Its state lives in hooks
  (\<open>useState\<close>, \<open>useRef\<close>); every handler is modelled as a function from the state before
  to the state after, with what the handler reads from the platform (the clock, a fresh
  UUID, the audio context time, the answers of the remote service) passed in as arguments.
  Numbers that hold times are taken to be real numbers; numbers that hold counters,
  indices and millisecond timestamps are integers.
\<close>

section \<open>JavaScript values\<close>

text \<open>
  A JavaScript string is a sequence of 16-bit code units. \<open>js\<close> writes an ASCII literal.
\<close>

type_synonym js_string = "16 word list"

definition js :: "string \<Rightarrow> js_string" where
  "js s = map of_char s"

text \<open>
  The values that JSON can carry. A number is an integer here, which is what
  \<open>Date.now()\<close> returns; an object is its list of own properties in enumeration order,
  with pairwise distinct keys (\<open>wf_object\<close>). An absent property reads as \<open>undefined\<close>,
  which is \<open>None\<close> in \<open>get_prop\<close>.
\<close>

datatype jsval =
    JNull
  | JBool bool
  | JNum int
  | JStr js_string
  | JArr "jsval list"
  | JObj "(js_string \<times> jsval) list"

type_synonym js_object = "(js_string \<times> jsval) list"

definition wf_object :: "js_object \<Rightarrow> bool" where
  "wf_object ps \<longleftrightarrow> distinct (map fst ps)"

definition get_prop :: "js_object \<Rightarrow> js_string \<Rightarrow> jsval option" where
  "get_prop ps k = map_of ps k"

text \<open>
  Writing a property keeps the position of a key that exists and appends a new key.
\<close>

fun set_prop :: "js_string \<Rightarrow> jsval \<Rightarrow> js_object \<Rightarrow> js_object" where
  "set_prop k v [] = [(k, v)]"
| "set_prop k v ((k', v') # ps) =
     (if k' = k then (k, v) # ps else (k', v') # set_prop k v ps)"

text \<open>
  Object spread \<open>{...target, ...src}\<close>: the properties of \<open>src\<close> are written into a copy of
  \<open>target\<close> one after the other.
\<close>

definition spread :: "js_object \<Rightarrow> js_object \<Rightarrow> js_object" where
  "spread target src = fold (\<lambda>(k, v). set_prop k v) src target"

section \<open>Results of calls\<close>

text \<open>
  A call returns a value or throws. \<open>OutsideModel\<close> marks the one place where this
  development does not follow the platform: JSON text with a number that is not an
  integer of at most \<open>Number.MAX_SAFE_INTEGER\<close> in magnitude. Nothing is claimed about
  such a call.
\<close>

datatype js_error = Error string | SyntaxError | ApiError string

datatype 'a outcome = Returns 'a | Throws js_error | OutsideModel

section \<open>JSON\<close>

text \<open>
  \<open>JSON.stringify\<close> and \<open>JSON.parse\<close> as ECMAScript defines them, on the values above
  and without indentation. They are what the persistence effects and the lookup call
  of the application rely on.
\<close>

subsection \<open>JSON.stringify\<close>

definition MAX_SAFE_INTEGER :: int where
  "MAX_SAFE_INTEGER = 2 ^ 53 - 1"

text \<open>
  \<open>QuoteJSONString\<close>: the two-character escapes; a backslash, \<open>u\<close> and four lower-case
  hex digits for the other control characters and for surrogates that are not part of a
  pair; every other code unit as it is.
\<close>

definition hex_digit :: "nat \<Rightarrow> 16 word" where
  "hex_digit d = of_nat (if d < 10 then 0x30 + d else 0x61 + (d - 10))"

definition unicode_escape :: "16 word \<Rightarrow> js_string" where
  "unicode_escape c =
     [0x5C, 0x75, hex_digit (unat c div 4096), hex_digit (unat c div 256 mod 16),
      hex_digit (unat c div 16 mod 16), hex_digit (unat c mod 16)]"

definition is_leading_surrogate :: "16 word \<Rightarrow> bool" where
  "is_leading_surrogate c \<longleftrightarrow> 0xD800 \<le> c \<and> c \<le> 0xDBFF"

definition is_trailing_surrogate :: "16 word \<Rightarrow> bool" where
  "is_trailing_surrogate c \<longleftrightarrow> 0xDC00 \<le> c \<and> c \<le> 0xDFFF"

fun quote_units :: "js_string \<Rightarrow> js_string" where
  "quote_units [] = []"
| "quote_units (c # cs) =
     (if c = 0x08 then 0x5C # 0x62 # quote_units cs
      else if c = 0x09 then 0x5C # 0x74 # quote_units cs
      else if c = 0x0A then 0x5C # 0x6E # quote_units cs
      else if c = 0x0C then 0x5C # 0x66 # quote_units cs
      else if c = 0x0D then 0x5C # 0x72 # quote_units cs
      else if c = 0x22 then 0x5C # 0x22 # quote_units cs
      else if c = 0x5C then 0x5C # 0x5C # quote_units cs
      else if c < 0x20 then unicode_escape c @ quote_units cs
      else if is_leading_surrogate c then
        (case cs of
           [] \<Rightarrow> unicode_escape c
         | d # ds \<Rightarrow>
             if is_trailing_surrogate d then c # d # quote_units ds
             else unicode_escape c @ quote_units cs)
      else if is_trailing_surrogate c then unicode_escape c @ quote_units cs
      else c # quote_units cs)"

definition QuoteJSONString :: "js_string \<Rightarrow> js_string" where
  "QuoteJSONString s = 0x22 # quote_units s @ [0x22]"

text \<open>The decimal digits of an integer, as \<open>Number::toString\<close> gives them.\<close>

fun digits :: "nat \<Rightarrow> js_string" where
  "digits n = (if n < 10 then [of_nat (0x30 + n)] else digits (n div 10) @ [of_nat (0x30 + n mod 10)])"

declare digits.simps [simp del]

definition number_to_string :: "int \<Rightarrow> js_string" where
  "number_to_string n = (if n < 0 then 0x2D # digits (nat (- n)) else digits (nat n))"

text \<open>Arrays and objects: members separated by commas, no white space.\<close>

fun stringify_value :: "jsval \<Rightarrow> js_string"
  and stringify_elements :: "jsval list \<Rightarrow> js_string"
  and stringify_members :: "(js_string \<times> jsval) list \<Rightarrow> js_string" where
  "stringify_value JNull = js ''null''"
| "stringify_value (JBool b) = (if b then js ''true'' else js ''false'')"
| "stringify_value (JNum n) = number_to_string n"
| "stringify_value (JStr s) = QuoteJSONString s"
| "stringify_value (JArr vs) = 0x5B # stringify_elements vs @ [0x5D]"
| "stringify_value (JObj ps) = 0x7B # stringify_members ps @ [0x7D]"
| "stringify_elements [] = []"
| "stringify_elements (v # vs) =
     stringify_value v @ (if vs = [] then [] else 0x2C # stringify_elements vs)"
| "stringify_members [] = []"
| "stringify_members ((k, v) # ps) =
     QuoteJSONString k @ 0x3A # stringify_value v @
       (if ps = [] then [] else 0x2C # stringify_members ps)"

definition JSON_stringify :: "jsval \<Rightarrow> js_string" where
  "JSON_stringify v = stringify_value v"

subsection \<open>JSON.parse\<close>

text \<open>
  A recursive-descent parser for the JSON grammar. A step yields the parsed item and the
  rest of the text, or fails. The recursion of values, array elements and object members
  runs on fuel. Twice the length of the text plus one is enough for any text
  (\<open>parse_value_enough_fuel\<close> below), so the parser is total on what \<open>JSON_parse\<close>
  gives it.
\<close>

datatype 'a parse = Parsed 'a js_string | Syntax | NotModelled | OutOfFuel

definition is_ws :: "16 word \<Rightarrow> bool" where
  "is_ws c \<longleftrightarrow> c = 0x20 \<or> c = 0x09 \<or> c = 0x0A \<or> c = 0x0D"

fun skip_ws :: "js_string \<Rightarrow> js_string" where
  "skip_ws [] = []"
| "skip_ws (c # cs) = (if is_ws c then skip_ws cs else c # cs)"

definition is_digit :: "16 word \<Rightarrow> bool" where
  "is_digit c \<longleftrightarrow> 0x30 \<le> c \<and> c \<le> 0x39"

text \<open>String contents after the opening quote, up to the closing quote.\<close>

definition hex_value :: "16 word \<Rightarrow> nat option" where
  "hex_value c =
     (if 0x30 \<le> c \<and> c \<le> 0x39 then Some (unat c - 0x30)
      else if 0x61 \<le> c \<and> c \<le> 0x66 then Some (unat c - 0x61 + 10)
      else if 0x41 \<le> c \<and> c \<le> 0x46 then Some (unat c - 0x41 + 10)
      else None)"

definition hex4 :: "16 word \<Rightarrow> 16 word \<Rightarrow> 16 word \<Rightarrow> 16 word \<Rightarrow> 16 word option" where
  "hex4 a b c d =
     (case (hex_value a, hex_value b, hex_value c, hex_value d) of
        (Some h3, Some h2, Some h1, Some h0) \<Rightarrow> Some (of_nat (h3 * 4096 + h2 * 256 + h1 * 16 + h0))
      | _ \<Rightarrow> None)"

definition simple_escape :: "16 word \<Rightarrow> 16 word option" where
  "simple_escape e =
     (if e = 0x22 then Some 0x22
      else if e = 0x5C then Some 0x5C
      else if e = 0x2F then Some 0x2F
      else if e = 0x62 then Some 0x08
      else if e = 0x66 then Some 0x0C
      else if e = 0x6E then Some 0x0A
      else if e = 0x72 then Some 0x0D
      else if e = 0x74 then Some 0x09
      else None)"

definition cons_unit :: "16 word \<Rightarrow> (js_string \<times> js_string) option \<Rightarrow> (js_string \<times> js_string) option" where
  "cons_unit u r = map_option (\<lambda>(s, rest). (u # s, rest)) r"

fun parse_string :: "js_string \<Rightarrow> (js_string \<times> js_string) option" where
  "parse_string [] = None"
| "parse_string (c # cs) =
     (if c = 0x22 then Some ([], cs)
      else if c = 0x5C then
        (case cs of
           [] \<Rightarrow> None
         | e # cs1 \<Rightarrow>
             if e = 0x75 then
               (case cs1 of
                  h3 # h2 # h1 # h0 # cs2 \<Rightarrow>
                    (case hex4 h3 h2 h1 h0 of
                       None \<Rightarrow> None
                     | Some u \<Rightarrow> cons_unit u (parse_string cs2))
                | _ \<Rightarrow> None)
             else
               (case simple_escape e of
                  None \<Rightarrow> None
                | Some u \<Rightarrow> cons_unit u (parse_string cs1)))
      else if c < 0x20 then None
      else cons_unit c (parse_string cs))"

text \<open>
  Numbers: an optional minus sign and an integer part without leading zeros. A fraction or
  an exponent, or a magnitude above \<open>MAX_SAFE_INTEGER\<close>, is outside this model.
\<close>

definition digits_value :: "js_string \<Rightarrow> nat" where
  "digits_value ds = foldl (\<lambda>a d. 10 * a + (unat d - 0x30)) 0 ds"

definition number_continues :: "js_string \<Rightarrow> bool" where
  "number_continues rest \<longleftrightarrow>
     (case rest of [] \<Rightarrow> False | c # _ \<Rightarrow> c = 0x2E \<or> c = 0x65 \<or> c = 0x45)"

definition parse_number :: "js_string \<Rightarrow> int parse" where
  "parse_number cs =
     (let negative = (case cs of [] \<Rightarrow> False | c # _ \<Rightarrow> c = 0x2D);
          cs1 = (if negative then tl cs else cs);
          ds = takeWhile is_digit cs1;
          rest = dropWhile is_digit cs1
      in if ds = [] then Syntax
         else if hd ds = 0x30 \<and> tl ds \<noteq> [] then Syntax
         else if number_continues rest then NotModelled
         else if int (digits_value ds) > MAX_SAFE_INTEGER then NotModelled
         else Parsed (if negative then - int (digits_value ds) else int (digits_value ds)) rest)"

definition literal :: "js_string \<Rightarrow> jsval \<Rightarrow> js_string \<Rightarrow> jsval parse" where
  "literal word v cs =
     (if take (length word) cs = word then Parsed v (drop (length word) cs) else Syntax)"

text \<open>
  An object is built by writing its members in order, so a repeated key keeps its first
  position and its last value.
\<close>

fun parse_value :: "nat \<Rightarrow> js_string \<Rightarrow> jsval parse"
  and parse_elements :: "nat \<Rightarrow> js_string \<Rightarrow> (jsval list) parse"
  and parse_members :: "nat \<Rightarrow> js_string \<Rightarrow> ((js_string \<times> jsval) list) parse" where
  "parse_value 0 cs = OutOfFuel"
| "parse_value (Suc n) cs =
     (case cs of
        [] \<Rightarrow> Syntax
      | c # r \<Rightarrow>
          if c = 0x22 then
            (case parse_string r of None \<Rightarrow> Syntax | Some (s, rest) \<Rightarrow> Parsed (JStr s) rest)
          else if c = 0x5B then
            (case skip_ws r of
               [] \<Rightarrow> Syntax
             | d # r1 \<Rightarrow>
                 if d = 0x5D then Parsed (JArr []) r1
                 else (case parse_elements n (d # r1) of
                         Parsed vs rest \<Rightarrow> Parsed (JArr vs) rest
                       | Syntax \<Rightarrow> Syntax | NotModelled \<Rightarrow> NotModelled | OutOfFuel \<Rightarrow> OutOfFuel))
          else if c = 0x7B then
            (case skip_ws r of
               [] \<Rightarrow> Syntax
             | d # r1 \<Rightarrow>
                 if d = 0x7D then Parsed (JObj []) r1
                 else (case parse_members n (d # r1) of
                         Parsed ps rest \<Rightarrow> Parsed (JObj (spread [] ps)) rest
                       | Syntax \<Rightarrow> Syntax | NotModelled \<Rightarrow> NotModelled | OutOfFuel \<Rightarrow> OutOfFuel))
          else if c = 0x74 then literal (js ''true'') (JBool True) cs
          else if c = 0x66 then literal (js ''false'') (JBool False) cs
          else if c = 0x6E then literal (js ''null'') JNull cs
          else if c = 0x2D \<or> is_digit c then
            (case parse_number cs of
               Parsed i rest \<Rightarrow> Parsed (JNum i) rest
             | Syntax \<Rightarrow> Syntax | NotModelled \<Rightarrow> NotModelled | OutOfFuel \<Rightarrow> OutOfFuel)
          else Syntax)"
| "parse_elements 0 cs = OutOfFuel"
| "parse_elements (Suc n) cs =
     (case parse_value n cs of
        Parsed v r \<Rightarrow>
          (case skip_ws r of
             [] \<Rightarrow> Syntax
           | d # r1 \<Rightarrow>
               if d = 0x5D then Parsed [v] r1
               else if d = 0x2C then
                 (case parse_elements n (skip_ws r1) of
                    Parsed vs rest \<Rightarrow> Parsed (v # vs) rest
                  | Syntax \<Rightarrow> Syntax | NotModelled \<Rightarrow> NotModelled | OutOfFuel \<Rightarrow> OutOfFuel)
               else Syntax)
      | Syntax \<Rightarrow> Syntax | NotModelled \<Rightarrow> NotModelled | OutOfFuel \<Rightarrow> OutOfFuel)"
| "parse_members 0 cs = OutOfFuel"
| "parse_members (Suc n) cs =
     (case cs of
        [] \<Rightarrow> Syntax
      | q # r \<Rightarrow>
          if q \<noteq> 0x22 then Syntax
          else
            (case parse_string r of
               None \<Rightarrow> Syntax
             | Some (k, r1) \<Rightarrow>
                 (case skip_ws r1 of
                    [] \<Rightarrow> Syntax
                  | colon # r2 \<Rightarrow>
                      if colon \<noteq> 0x3A then Syntax
                      else
                        (case parse_value n (skip_ws r2) of
                           Parsed v r3 \<Rightarrow>
                             (case skip_ws r3 of
                                [] \<Rightarrow> Syntax
                              | d # r4 \<Rightarrow>
                                  if d = 0x7D then Parsed [(k, v)] r4
                                  else if d = 0x2C then
                                    (case parse_members n (skip_ws r4) of
                                       Parsed ps rest \<Rightarrow> Parsed ((k, v) # ps) rest
                                     | Syntax \<Rightarrow> Syntax | NotModelled \<Rightarrow> NotModelled
                                     | OutOfFuel \<Rightarrow> OutOfFuel)
                                  else Syntax)
                         | Syntax \<Rightarrow> Syntax | NotModelled \<Rightarrow> NotModelled
                         | OutOfFuel \<Rightarrow> OutOfFuel))))"

text \<open>The whole text must be one value between optional white space.\<close>

definition JSON_parse :: "js_string \<Rightarrow> jsval outcome" where
  "JSON_parse text =
     (case parse_value (Suc (2 * length text)) (skip_ws text) of
        Parsed v rest \<Rightarrow> if skip_ws rest = [] then Returns v else Throws SyntaxError
      | Syntax \<Rightarrow> Throws SyntaxError
      | NotModelled \<Rightarrow> OutsideModel
      | OutOfFuel \<Rightarrow> OutsideModel)"

subsection \<open>Values that survive a round trip\<close>

text \<open>
  Objects with pairwise distinct keys and integers within the safe range, at every depth.
\<close>

fun wf_value :: "jsval \<Rightarrow> bool"
  and wf_elements :: "jsval list \<Rightarrow> bool"
  and wf_members :: "(js_string \<times> jsval) list \<Rightarrow> bool" where
  "wf_value JNull = True"
| "wf_value (JBool b) = True"
| "wf_value (JNum n) = (\<bar>n\<bar> \<le> MAX_SAFE_INTEGER)"
| "wf_value (JStr s) = True"
| "wf_value (JArr vs) = wf_elements vs"
| "wf_value (JObj ps) = (wf_object ps \<and> wf_members ps)"
| "wf_elements [] = True"
| "wf_elements (v # vs) = (wf_value v \<and> wf_elements vs)"
| "wf_members [] = True"
| "wf_members ((k, v) # ps) = (wf_value v \<and> wf_members ps)"

text \<open>Fuel that suffices to parse the text of a value.\<close>

fun fuel_value :: "jsval \<Rightarrow> nat"
  and fuel_elements :: "jsval list \<Rightarrow> nat"
  and fuel_members :: "(js_string \<times> jsval) list \<Rightarrow> nat" where
  "fuel_value JNull = 0"
| "fuel_value (JBool b) = 0"
| "fuel_value (JNum n) = 0"
| "fuel_value (JStr s) = 0"
| "fuel_value (JArr vs) = Suc (fuel_elements vs)"
| "fuel_value (JObj ps) = Suc (fuel_members ps)"
| "fuel_elements [] = 0"
| "fuel_elements (v # vs) = Suc (fuel_value v + fuel_elements vs)"
| "fuel_members [] = 0"
| "fuel_members ((k, v) # ps) = Suc (fuel_value v + fuel_members ps)"

text \<open>The code units a value's text can start with, and what may follow a number.\<close>

definition value_start :: "16 word \<Rightarrow> bool" where
  "value_start c \<longleftrightarrow>
     c = 0x22 \<or> c = 0x5B \<or> c = 0x7B \<or> c = 0x74 \<or> c = 0x66 \<or> c = 0x6E \<or> c = 0x2D \<or> is_digit c"

definition ends_number :: "js_string \<Rightarrow> bool" where
  "ends_number rest \<longleftrightarrow>
     (case rest of
        [] \<Rightarrow> True
      | c # _ \<Rightarrow> \<not> is_digit c \<and> c \<noteq> 0x2E \<and> c \<noteq> 0x65 \<and> c \<noteq> 0x45)"

section \<open>The word list (App.tsx)\<close>

text \<open>
  \<^verbatim>\<open>const newWord = { ...wordDef, id: crypto.randomUUID(), addedAt: Date.now() }\<close>.
  The UUID and the clock reading come from the platform and are arguments here.
\<close>

definition newWord :: "js_string \<Rightarrow> int \<Rightarrow> js_object \<Rightarrow> js_object" where
  "newWord uuid now wordDef =
     set_prop (js ''addedAt'') (JNum now) (set_prop (js ''id'') (JStr uuid) (spread [] wordDef))"

text \<open>\<^verbatim>\<open>setSavedWords((prev) => [newWord, ...prev])\<close>\<close>

definition handleSaveWord ::
  "js_string \<Rightarrow> int \<Rightarrow> js_object \<Rightarrow> js_object list \<Rightarrow> js_object list" where
  "handleSaveWord uuid now wordDef prev = newWord uuid now wordDef # prev"

text \<open>\<^verbatim>\<open>setSavedWords((prev) => prev.filter((w) => w.id !== id))\<close>\<close>

definition handleRemoveWord :: "js_string \<Rightarrow> js_object list \<Rightarrow> js_object list" where
  "handleRemoveWord ident prev =
     filter (\<lambda>w. get_prop w (js ''id'') \<noteq> Some (JStr ident)) prev"

text \<open>\<^verbatim>\<open>setSavedWords((prev) => prev.map(w => w.id === id ? { ...w, ...updates } : w))\<close>\<close>

definition handleUpdateWord ::
  "js_string \<Rightarrow> js_object \<Rightarrow> js_object list \<Rightarrow> js_object list" where
  "handleUpdateWord ident updates prev =
     map (\<lambda>w. if get_prop w (js ''id'') = Some (JStr ident)
              then spread (spread [] w) updates else w) prev"

subsection \<open>The caller in the search view (components/WordSearch.tsx)\<close>

text \<open>
  What \<open>handleSave\<close> passes to \<open>onSaveWord\<close>, which is \<open>handleSaveWord\<close>: the looked-up
  record, with the mnemonic image that was generated in the background if there is one.
  \<^verbatim>\<open>
  if (result) {
    // If we have a generated image, save it with the word
    const wordToSave = generatedImage ? { ...result, imageUrl: generatedImage } : result;
    onSaveWord(wordToSave);
  }
  \<close>
\<close>

definition handleSave :: "js_object option \<Rightarrow> js_string option \<Rightarrow> js_object option" where
  "handleSave result generatedImage =
     (case result of
        None \<Rightarrow> None
      | Some r \<Rightarrow>
          Some (case generatedImage of
                  None \<Rightarrow> r
                | Some url \<Rightarrow>
                    if url \<noteq> [] then set_prop (js ''imageUrl'') (JStr url) (spread [] r)
                    else r))"

subsection \<open>Persistence\<close>

definition STORAGE_KEY :: js_string where
  "STORAGE_KEY = js ''linguaflow_vocab_v1''"

text \<open>\<open>localStorage\<close>: \<open>getItem\<close> reads a key, \<open>setItem\<close> writes it.\<close>

type_synonym storage = "js_string \<Rightarrow> js_string option"

text \<open>
  The effect that runs on mount, as the value \<open>savedWords\<close> has after it. A parse error
  is caught and logged, and the state stays as it was.
  \<^verbatim>\<open>
  const saved = localStorage.getItem(STORAGE_KEY);
  if (saved) { try { setSavedWords(JSON.parse(saved)); } catch (e) { console.error(...); } }
  \<close>
\<close>

definition load_effect :: "storage \<Rightarrow> jsval \<Rightarrow> jsval outcome" where
  "load_effect localStorage savedWords =
     (case localStorage STORAGE_KEY of
        None \<Rightarrow> Returns savedWords
      | Some saved \<Rightarrow>
          if saved = [] then Returns savedWords
          else (case JSON_parse saved of
                  Returns v \<Rightarrow> Returns v
                | Throws e \<Rightarrow> Returns savedWords
                | OutsideModel \<Rightarrow> OutsideModel))"

text \<open>
  The effect that runs whenever \<open>savedWords\<close> has changed:
  \<^verbatim>\<open>localStorage.setItem(STORAGE_KEY, JSON.stringify(savedWords))\<close>.
  The storage is taken to have room for the text.
\<close>

definition save_effect :: "jsval \<Rightarrow> storage \<Rightarrow> storage" where
  "save_effect savedWords localStorage = localStorage(STORAGE_KEY \<mapsto> JSON_stringify savedWords)"

text \<open>
  A state change through \<open>setSavedWords\<close>: the list is replaced, the component renders
  again and the save effect runs on the new list.
\<close>

definition setSavedWords ::
  "(js_object list \<Rightarrow> js_object list) \<Rightarrow> js_object list \<times> storage \<Rightarrow> js_object list \<times> storage" where
  "setSavedWords update st =
     (update (fst st), save_effect (JArr (map JObj (update (fst st)))) (snd st))"

subsection \<open>The word record type (types.ts)\<close>

text \<open>
  \<open>WordDefinition\<close> is an interface with seven string fields. TypeScript types are
  structural: an object with further properties is a \<open>WordDefinition\<close> too.
\<close>

definition WordDefinition_fields :: "js_string list" where
  "WordDefinition_fields =
     [js ''word'', js ''phonetic'', js ''partOfSpeech'', js ''definitionEn'', js ''definitionCn'',
      js ''exampleSentence'', js ''exampleTranslation'']"

definition is_string :: "jsval option \<Rightarrow> bool" where
  "is_string v = (case v of Some (JStr s) \<Rightarrow> True | _ \<Rightarrow> False)"

definition is_WordDefinition :: "js_object \<Rightarrow> bool" where
  "is_WordDefinition w = list_all (\<lambda>k. is_string (get_prop w k)) WordDefinition_fields"

subsection \<open>Sample data\<close>

definition cat_definition :: js_object where
  "cat_definition =
     [(js ''word'', JStr (js ''cat'')),
      (js ''phonetic'', JStr (js ''kat'')),
      (js ''partOfSpeech'', JStr (js ''noun'')),
      (js ''definitionEn'', JStr (js ''a small animal'')),
      (js ''definitionCn'', JStr [0x732B]),
      (js ''exampleSentence'', JStr (js ''The cat sat.'')),
      (js ''exampleTranslation'', JStr [0x732B, 0x5750, 0x4E0B, 0x3002])]"

definition two_words :: "js_object list" where
  "two_words =
     [[(js ''word'', JStr (js ''cat'')), (js ''id'', JStr (js ''a''))],
      [(js ''word'', JStr (js ''dog'')), (js ''id'', JStr (js ''b''))]]"

section \<open>Flashcard navigation (components/FlashcardReview.tsx)\<close>

text \<open>
  The remainder operator of JavaScript truncates towards zero: the result has the sign of
  the dividend. The component returns early when the word list is empty, so the handlers
  below only ever run with a positive divisor.
\<close>

definition js_rem :: "int \<Rightarrow> int \<Rightarrow> int" where
  "js_rem a n = sgn a * (\<bar>a\<bar> mod \<bar>n\<bar>)"

text \<open>\<^verbatim>\<open>setCurrentIndex((prev) => (prev + 1) % words.length)\<close>\<close>

definition handleNext :: "'w list \<Rightarrow> int \<Rightarrow> int" where
  "handleNext words prev = js_rem (prev + 1) (int (length words))"

text \<open>\<^verbatim>\<open>setCurrentIndex((prev) => (prev - 1 + words.length) % words.length)\<close>\<close>

definition handlePrev :: "'w list \<Rightarrow> int \<Rightarrow> int" where
  "handlePrev words prev = js_rem (prev - 1 + int (length words)) (int (length words))"

datatype nav_step = Next | Prev

fun nav :: "'w list \<Rightarrow> nav_step \<Rightarrow> int \<Rightarrow> int" where
  "nav words Next i = handleNext words i"
| "nav words Prev i = handlePrev words i"

text \<open>The index after a sequence of button presses; \<open>useState(0)\<close> starts it at 0.\<close>

definition navigate :: "'w list \<Rightarrow> nav_step list \<Rightarrow> int \<Rightarrow> int" where
  "navigate words steps i = fold (nav words) steps i"

definition in_bounds :: "'w list \<Rightarrow> int \<Rightarrow> bool" where
  "in_bounds words i \<longleftrightarrow> 0 \<le> i \<and> i < int (length words)"

section \<open>Message parts shared by the remote client and the live session\<close>

record inline_data =
  data :: "js_string option"

record part =
  inlineData :: "inline_data option"

record content =
  parts :: "part list option"

text \<open>\<open>xs?.[0]\<close>: the first element, or \<open>undefined\<close> on an empty array.\<close>

definition first :: "'a list \<Rightarrow> 'a option" where
  "first xs = (case xs of [] \<Rightarrow> None | x # _ \<Rightarrow> Some x)"

text \<open>\<open>content?.parts?.[0]?.inlineData?.data\<close>\<close>

definition first_inline_data :: "content option \<Rightarrow> js_string option" where
  "first_inline_data c =
     Option.bind (Option.bind (Option.bind (Option.bind c parts) first) inlineData) data"

section \<open>Remote AI client (services/geminiService.ts)\<close>

text \<open>
  An operation of the client is a function of its arguments and of the world outside the
  browser: it takes the state of that world and yields its outcome and the state the
  world is left in. The client has no state of its own to pass on: every operation
  starts with \<open>getAI()\<close>, which builds a new client, and drops it at the end. A request
  stands for the model name, prompt and configuration that the operation builds from its
  arguments.
\<close>

datatype request =
    LookupRequest js_string
  | TTSRequest js_string
  | WordImageRequest js_string js_string
  | WordVideoRequest js_string js_string
  | AnalyzeImageRequest js_string

text \<open>The parts of the responses that the client reads.\<close>

record candidate =
  content :: "content option"

record generate_content_response =
  response_text :: "js_string option"
  candidates :: "candidate list option"

record video =
  uri :: "js_string option"

record generated_video =
  video :: "video option"

record generate_videos_response =
  generatedVideos :: "generated_video list option"

record videos_operation =
  operation_done :: "bool option"
  operation_response :: "generate_videos_response option"

text \<open>
  The remote service as a client reaches it. Each call resolves with an answer or rejects
  with an error, and may change the world \<open>'w\<close>: what the service answers later can
  depend on what it was asked before. \<open>fetch\<close> is the browser's, used for the download.
\<close>

record ('w, 'blob) remote =
  generateContent :: "request \<Rightarrow> 'w \<Rightarrow> (js_error + generate_content_response) \<times> 'w"
  generateVideos :: "request \<Rightarrow> 'w \<Rightarrow> (js_error + videos_operation) \<times> 'w"
  getVideosOperation :: "videos_operation \<Rightarrow> 'w \<Rightarrow> (js_error + videos_operation) \<times> 'w"
  fetch :: "js_string \<Rightarrow> 'w \<Rightarrow> (js_error + 'blob) \<times> 'w"

text \<open>
  What the module takes from its surroundings: \<open>process.env.API_KEY\<close>, the constructor
  \<open>GoogleGenAI\<close> of the SDK, which may throw, and \<open>URL.createObjectURL\<close>.
\<close>

record ('w, 'blob) platform =
  API_KEY :: "js_string option"
  GoogleGenAI :: "js_string option \<Rightarrow> js_error + ('w, 'blob) remote"
  createObjectURL :: "'blob \<Rightarrow> js_string"

text \<open>\<^verbatim>\<open>const getAI = () => new GoogleGenAI({ apiKey: process.env.API_KEY });\<close>\<close>

definition getAI :: "('w, 'blob) platform \<Rightarrow> js_error + ('w, 'blob) remote" where
  "getAI p = GoogleGenAI p (API_KEY p)"

text \<open>
  The SDK \<open>@google/genai\<close> is a dependency and not part of the repository, so the
  constructor is a field of the platform. This is the constructor of its browser build:
  it throws when it is given no API key, and otherwise gives a client for the service.
\<close>

definition browser_sdk ::
  "('w, 'blob) remote \<Rightarrow> js_string option \<Rightarrow> js_error + ('w, 'blob) remote" where
  "browser_sdk service apiKey =
     (case apiKey of
        None \<Rightarrow> Inl (Error ''An API Key must be set when running in a browser'')
      | Some key \<Rightarrow> Inr service)"

text \<open>A string tested as a condition: \<open>undefined\<close> and the empty string are false.\<close>

definition truthy :: "js_string option \<Rightarrow> bool" where
  "truthy s \<longleftrightarrow> (case s of None \<Rightarrow> False | Some t \<Rightarrow> t \<noteq> [])"

text \<open>
  \<^verbatim>\<open>
  const ai = getAI();
  const response = await ai.models.generateContent({...});
  if (response.text) { return JSON.parse(response.text) as WordDefinition; }
  throw new Error("Failed to generate definition");
  \<close>
\<close>

definition lookupWordInGemini ::
  "('w, 'blob) platform \<Rightarrow> js_string \<Rightarrow> 'w \<Rightarrow> jsval outcome \<times> 'w" where
  "lookupWordInGemini p word w =
     (case getAI p of
        Inl e \<Rightarrow> (Throws e, w)
      | Inr ai \<Rightarrow>
          (case generateContent ai (LookupRequest word) w of
             (Inl e, w') \<Rightarrow> (Throws e, w')
           | (Inr response, w') \<Rightarrow>
               (case response_text response of
                  None \<Rightarrow> (Throws (Error ''Failed to generate definition''), w')
                | Some t \<Rightarrow>
                    if t \<noteq> [] then (JSON_parse t, w')
                    else (Throws (Error ''Failed to generate definition''), w'))))"

text \<open>
  The client is built before the \<open>try\<close> block is entered.
  \<^verbatim>\<open>
  const ai = getAI();
  try {
    const response = await ai.models.generateContent({...});
    return response.candidates?.[0]?.content?.parts?.[0]?.inlineData?.data || null;
  } catch (error) { console.error("TTS Error", error); return null; }
  \<close>
\<close>

definition generateTTS ::
  "('w, 'blob) platform \<Rightarrow> js_string \<Rightarrow> 'w \<Rightarrow> js_string option outcome \<times> 'w" where
  "generateTTS p t w =
     (case getAI p of
        Inl e \<Rightarrow> (Throws e, w)
      | Inr ai \<Rightarrow>
          (case generateContent ai (TTSRequest t) w of
             (Inl error, w') \<Rightarrow> (Returns None, w')
           | (Inr response, w') \<Rightarrow>
               (case first_inline_data
                       (Option.bind (Option.bind (candidates response) first) content) of
                  None \<Rightarrow> (Returns None, w')
                | Some d \<Rightarrow> if d \<noteq> [] then (Returns (Some d), w') else (Returns None, w'))))"

text \<open>
  The first part with inline data, as a data URL; the \<open>catch\<close> logs and throws again.
  \<^verbatim>\<open>
  const ai = getAI();
  try {
    const response = await ai.models.generateContent({...});
    for (const part of response.candidates?.[0]?.content?.parts || []) {
      if (part.inlineData) { return `data:image/png;base64,${part.inlineData.data}`; }
    }
    return null;
  } catch (e) { console.error("Image Generation Error", e); throw e; }
  \<close>
\<close>

definition image_data_url :: "inline_data \<Rightarrow> js_string" where
  "image_data_url i =
     js ''data:image/png;base64,'' @ (case data i of None \<Rightarrow> js ''undefined'' | Some d \<Rightarrow> d)"

fun first_image :: "part list \<Rightarrow> js_string option" where
  "first_image [] = None"
| "first_image (p # ps) =
     (case inlineData p of Some i \<Rightarrow> Some (image_data_url i) | None \<Rightarrow> first_image ps)"

definition generateWordImage ::
  "('w, 'blob) platform \<Rightarrow> js_string \<Rightarrow> js_string \<Rightarrow> 'w \<Rightarrow> js_string option outcome \<times> 'w" where
  "generateWordImage p word definitionEn w =
     (case getAI p of
        Inl e \<Rightarrow> (Throws e, w)
      | Inr ai \<Rightarrow>
          (case generateContent ai (WordImageRequest word definitionEn) w of
             (Inl e, w') \<Rightarrow> (Throws e, w')
           | (Inr response, w') \<Rightarrow>
               (Returns (first_image
                  (case Option.bind (Option.bind (Option.bind (candidates response) first) content)
                          parts of
                     None \<Rightarrow> []
                   | Some ps \<Rightarrow> ps)), w')))"

text \<open>
  \<^verbatim>\<open>
  const ai = getAI();
  const response = await ai.models.generateContent({...});
  if (response.text) { return JSON.parse(response.text) as ImageLabel[]; }
  return [];
  \<close>
\<close>

definition analyzeImageForVocabulary ::
  "('w, 'blob) platform \<Rightarrow> js_string \<Rightarrow> 'w \<Rightarrow> jsval outcome \<times> 'w" where
  "analyzeImageForVocabulary p base64Image w =
     (case getAI p of
        Inl e \<Rightarrow> (Throws e, w)
      | Inr ai \<Rightarrow>
          (case generateContent ai (AnalyzeImageRequest base64Image) w of
             (Inl e, w') \<Rightarrow> (Throws e, w')
           | (Inr response, w') \<Rightarrow>
               (case response_text response of
                  None \<Rightarrow> (Returns (JArr []), w')
                | Some t \<Rightarrow> if t \<noteq> [] then (JSON_parse t, w') else (Returns (JArr []), w'))))"

text \<open>
  The polling loop of \<open>generateWordVideo\<close>. It need not end: the result is \<open>None\<close> when
  the operation never reports done.
  \<^verbatim>\<open>
  while (!operation.done) {
    await new Promise(resolve => setTimeout(resolve, 5000));
    operation = await ai.operations.getVideosOperation({ operation: operation });
  }
  \<close>
\<close>

partial_function (option) poll ::
  "('w, 'blob) remote \<Rightarrow> videos_operation \<Rightarrow> 'w \<Rightarrow> ((js_error + videos_operation) \<times> 'w) option" where
  "poll ai operation w =
     (if operation_done operation = Some True then Some (Inr operation, w)
      else (case getVideosOperation ai operation w of
              (Inl e, w') \<Rightarrow> Some (Inl e, w')
            | (Inr operation', w') \<Rightarrow> poll ai operation' w'))"

text \<open>\<^verbatim>\<open>operation.response?.generatedVideos?.[0]?.video?.uri\<close>\<close>

definition downloadLink :: "videos_operation \<Rightarrow> js_string option" where
  "downloadLink operation =
     Option.bind (Option.bind (Option.bind (Option.bind (operation_response operation) generatedVideos) first)
       video) uri"

text \<open>\<^verbatim>\<open>`${downloadLink}&key=${process.env.API_KEY}`\<close>\<close>

definition download_url :: "js_string option \<Rightarrow> js_string \<Rightarrow> js_string" where
  "download_url apiKey link =
     link @ js ''&key='' @ (case apiKey of None \<Rightarrow> js ''undefined'' | Some key \<Rightarrow> key)"

text \<open>
  The \<open>catch\<close> logs and throws again.
  \<^verbatim>\<open>
  const ai = getAI();
  try {
    let operation = await ai.models.generateVideos({...});
    while (!operation.done) {...}
    const downloadLink = operation.response?.generatedVideos?.[0]?.video?.uri;
    if (!downloadLink) return null;
    const response = await fetch(`${downloadLink}&key=${process.env.API_KEY}`);
    const blob = await response.blob();
    return URL.createObjectURL(blob);
  } catch (e) { console.error("Video Generation Error", e); throw e; }
  \<close>
\<close>

definition generateWordVideo ::
  "('w, 'blob) platform \<Rightarrow> js_string \<Rightarrow> js_string \<Rightarrow> 'w
     \<Rightarrow> (js_string option outcome \<times> 'w) option" where
  "generateWordVideo p word context w =
     (case getAI p of
        Inl e \<Rightarrow> Some (Throws e, w)
      | Inr ai \<Rightarrow>
          (case generateVideos ai (WordVideoRequest word context) w of
             (Inl e, w1) \<Rightarrow> Some (Throws e, w1)
           | (Inr started, w1) \<Rightarrow>
               (case poll ai started w1 of
                  None \<Rightarrow> None
                | Some (Inl e, w2) \<Rightarrow> Some (Throws e, w2)
                | Some (Inr operation, w2) \<Rightarrow>
                    (case downloadLink operation of
                       None \<Rightarrow> Some (Returns None, w2)
                     | Some link \<Rightarrow>
                         if link = [] then Some (Returns None, w2)
                         else
                           (case fetch ai (download_url (API_KEY p) link) w2 of
                              (Inl e, w3) \<Rightarrow> Some (Throws e, w3)
                            | (Inr blob, w3) \<Rightarrow>
                                Some (Returns (Some (createObjectURL p blob)), w3))))))"

subsection \<open>Counting the calls of a run\<close>

datatype api_call =
    GenerateContent request
  | GenerateVideos request
  | GetVideosOperation
  | Fetch js_string

text \<open>
  A service that keeps a log: the world is paired with the list of calls made so far, and
  every call that reaches the service adds its entry. An operation is written for any
  world, so it cannot read or write the log; what the log holds after a run is what the
  run asked of the service.
\<close>

definition logged :: "('w, 'blob) remote \<Rightarrow> (api_call list \<times> 'w, 'blob) remote" where
  "logged ai =
     \<lparr>generateContent = (\<lambda>req lw.
        (fst (generateContent ai req (snd lw)),
         (fst lw @ [GenerateContent req], snd (generateContent ai req (snd lw))))),
      generateVideos = (\<lambda>req lw.
        (fst (generateVideos ai req (snd lw)),
         (fst lw @ [GenerateVideos req], snd (generateVideos ai req (snd lw))))),
      getVideosOperation = (\<lambda>operation lw.
        (fst (getVideosOperation ai operation (snd lw)),
         (fst lw @ [GetVideosOperation], snd (getVideosOperation ai operation (snd lw))))),
      fetch = (\<lambda>url lw.
        (fst (fetch ai url (snd lw)),
         (fst lw @ [Fetch url], snd (fetch ai url (snd lw)))))\<rparr>"

definition logged_platform ::
  "('w, 'blob) platform \<Rightarrow> (api_call list \<times> 'w, 'blob) platform" where
  "logged_platform p =
     \<lparr>API_KEY = API_KEY p,
      GoogleGenAI = (\<lambda>apiKey. case GoogleGenAI p apiKey of
                                 Inl e \<Rightarrow> Inl e
                               | Inr ai \<Rightarrow> Inr (logged ai)),
      createObjectURL = createObjectURL p\<rparr>"

text \<open>The calls a run makes when it starts in world \<open>w\<close> with an empty log.\<close>

definition calls :: "(api_call list \<times> 'w \<Rightarrow> 'a \<times> api_call list \<times> 'w) \<Rightarrow> 'w \<Rightarrow> api_call list" where
  "calls run w = fst (snd (run ([], w)))"

definition unlogged :: "'a \<times> api_call list \<times> 'w \<Rightarrow> 'a \<times> 'w" where
  "unlogged r = (fst r, snd (snd r))"

subsection \<open>Sample services\<close>

text \<open>
  The world of the samples is the number of status requests the service has answered.
\<close>

definition pending :: videos_operation where
  "pending = \<lparr>operation_done = None, operation_response = None\<rparr>"

definition finished :: videos_operation where
  "finished = \<lparr>operation_done = Some True,
     operation_response = Some \<lparr>generatedVideos =
       Some [\<lparr>video = Some \<lparr>uri = Some (js ''https://v/1?alt=media'')\<rparr>\<rparr>]\<rparr>\<rparr>"

definition video_service :: "(nat, nat) remote" where
  "video_service =
     \<lparr>generateContent = (\<lambda>req w. (Inl (ApiError ''unavailable''), w)),
      generateVideos = (\<lambda>req w. (Inr pending, w)),
      getVideosOperation = (\<lambda>operation w. (Inr (if w = 0 then pending else finished), Suc w)),
      fetch = (\<lambda>url w. (Inr 7, w))\<rparr>"

definition slow_video :: "nat \<Rightarrow> videos_operation" where
  "slow_video i = (if i < 2 then pending else finished)"

definition speech_service :: "(nat, nat) remote" where
  "speech_service =
     \<lparr>generateContent = (\<lambda>req w. (Inr \<lparr>response_text = None,
          candidates = Some [\<lparr>content = Some \<lparr>parts =
            Some [\<lparr>inlineData = Some \<lparr>data = Some (js ''UklGRg=='')\<rparr>\<rparr>]\<rparr>\<rparr>]\<rparr>, w)),
      generateVideos = (\<lambda>req w. (Inl (ApiError ''unavailable''), w)),
      getVideosOperation = (\<lambda>operation w. (Inl (ApiError ''unavailable''), w)),
      fetch = (\<lambda>url w. (Inl (ApiError ''unavailable''), w))\<rparr>"

definition text_service :: "js_string option \<Rightarrow> (nat, nat) remote" where
  "text_service t =
     \<lparr>generateContent = (\<lambda>req w. (Inr \<lparr>response_text = t, candidates = None\<rparr>, w)),
      generateVideos = (\<lambda>req w. (Inl (ApiError ''unavailable''), w)),
      getVideosOperation = (\<lambda>operation w. (Inl (ApiError ''unavailable''), w)),
      fetch = (\<lambda>url w. (Inl (ApiError ''unavailable''), w))\<rparr>"

text \<open>A browser with the SDK, with or without an API key in the build.\<close>

definition browser :: "js_string option \<Rightarrow> (nat, nat) remote \<Rightarrow> (nat, nat) platform" where
  "browser apiKey service =
     \<lparr>API_KEY = apiKey, GoogleGenAI = browser_sdk service,
      createObjectURL = (\<lambda>blob. js ''blob:1'')\<rparr>"

section \<open>Live practice session (components/LivePractice.tsx)\<close>

subsection \<open>Inbound messages and playback\<close>

record server_content =
  modelTurn :: "content option"
  interrupted :: "bool option"

record live_server_message =
  serverContent :: "server_content option"

text \<open>
  An \<open>AudioBuffer\<close> of the Web Audio API: its duration in seconds is its length in
  sample-frames over its sample rate.
\<close>

record AudioBuffer =
  buf_length :: nat
  buf_sampleRate :: nat

definition duration :: "AudioBuffer \<Rightarrow> real" where
  "duration b = real (buf_length b) / real (buf_sampleRate b)"

text \<open>
  A buffer source node that has been started: \<open>ctx.createBufferSource()\<close> gives each node
  an identity, \<open>source.buffer\<close> is its audio and \<open>source.start(t)\<close> fixed \<open>startedAt\<close>.
\<close>

record source_node =
  node_id :: nat
  buffer :: AudioBuffer
  startedAt :: real

text \<open>One call of \<open>source.start\<close>, with the context time the handler read.\<close>

record start_call =
  calledAt :: real
  node :: source_node

text \<open>
  The refs of the component. \<open>sources\<close> is \<open>sourcesRef\<close>, a \<open>Set\<close> in insertion order;
  \<open>playback\<close> and \<open>stopped\<close> log the calls of \<open>start\<close> and \<open>stop\<close> on source nodes;
  \<open>created\<close> counts the nodes created so far. The two booleans say whether
  \<open>outputAudioContextRef\<close> and \<open>outputNodeRef\<close> hold an object; \<open>connect\<close> sets both
  before it opens the session.
\<close>

record live_session =
  outputAudioContext :: bool
  outputNode :: bool
  nextStartTime :: real
  sources :: "source_node list"
  created :: nat
  playback :: "start_call list"
  stopped :: "nat list"

text \<open>\<^verbatim>\<open>message.serverContent?.modelTurn?.parts?.[0]?.inlineData?.data\<close>\<close>

definition message_audio :: "live_server_message \<Rightarrow> js_string option" where
  "message_audio message = first_inline_data (Option.bind (serverContent message) modelTurn)"

text \<open>\<^verbatim>\<open>message.serverContent?.interrupted\<close>, tested for truth.\<close>

definition message_interrupted :: "live_server_message \<Rightarrow> bool" where
  "message_interrupted message =
     (Option.bind (serverContent message) interrupted = Some True)"

text \<open>
  The audio branch of \<open>onmessage\<close>. \<open>decodeAudio\<close> stands for
  \<open>decodeAudioData(decode(base64Audio), ctx, 24000, 1)\<close> of \<open>utils/audioUtils\<close>, whose
  source is not part of this development; the handler is taken to run to its end before
  the next message is handled.
  \<^verbatim>\<open>
  nextStartTimeRef.current = Math.max(nextStartTimeRef.current, ctx.currentTime);
  const audioBuffer = await decodeAudioData(...);
  const source = ctx.createBufferSource();
  source.buffer = audioBuffer;
  source.start(nextStartTimeRef.current);
  nextStartTimeRef.current += audioBuffer.duration;
  sourcesRef.current.add(source);
  \<close>
\<close>

definition play_chunk ::
  "(js_string \<Rightarrow> AudioBuffer) \<Rightarrow> real \<Rightarrow> js_string \<Rightarrow> live_session \<Rightarrow> live_session" where
  "play_chunk decodeAudio currentTime base64Audio st =
     (let start = max (nextStartTime st) currentTime;
          audioBuffer = decodeAudio base64Audio;
          source = \<lparr>node_id = created st, buffer = audioBuffer, startedAt = start\<rparr>
      in st\<lparr>created := Suc (created st),
            playback := playback st @ [\<lparr>calledAt = currentTime, node = source\<rparr>],
            nextStartTime := start + duration audioBuffer,
            sources := sources st @ [source]\<rparr>)"

text \<open>
  The interruption branch. Every tracked source has been started, so \<open>stop\<close> succeeds on
  each; the \<open>try\<close> around it swallows an error in any case.
  \<^verbatim>\<open>
  sourcesRef.current.forEach(source => { try { source.stop(); } catch(e) {} });
  sourcesRef.current.clear();
  nextStartTimeRef.current = 0;
  \<close>
\<close>

definition interrupt :: "live_session \<Rightarrow> live_session" where
  "interrupt st =
     st\<lparr>stopped := stopped st @ map node_id (sources st),
        sources := [],
        nextStartTime := 0\<rparr>"

text \<open>The handler: first the audio branch, then the interruption branch.\<close>

definition onmessage ::
  "(js_string \<Rightarrow> AudioBuffer) \<Rightarrow> real \<Rightarrow> live_server_message \<Rightarrow> live_session \<Rightarrow> live_session" where
  "onmessage decodeAudio currentTime message st =
     (let st1 = (case message_audio message of
                   None \<Rightarrow> st
                 | Some base64Audio \<Rightarrow>
                     if base64Audio \<noteq> [] \<and> outputAudioContext st \<and> outputNode st
                     then play_chunk decodeAudio currentTime base64Audio st
                     else st)
      in if message_interrupted message then interrupt st1 else st1)"

text \<open>The \<open>ended\<close> listener of a source: \<open>sourcesRef.current.delete(source)\<close>.\<close>

definition onended :: "nat \<Rightarrow> live_session \<Rightarrow> live_session" where
  "onended i st = st\<lparr>sources := filter (\<lambda>s. node_id s \<noteq> i) (sources st)\<rparr>"

text \<open>A session is a sequence of events, each handled in turn.\<close>

datatype live_event = Message real live_server_message | Ended nat

fun handle :: "(js_string \<Rightarrow> AudioBuffer) \<Rightarrow> live_event \<Rightarrow> live_session \<Rightarrow> live_session" where
  "handle decodeAudio (Message currentTime message) st = onmessage decodeAudio currentTime message st"
| "handle decodeAudio (Ended i) st = onended i st"

definition run :: "(js_string \<Rightarrow> AudioBuffer) \<Rightarrow> live_event list \<Rightarrow> live_session \<Rightarrow> live_session" where
  "run decodeAudio evs st = fold (handle decodeAudio) evs st"


subsection \<open>What back-to-back playback means\<close>







subsection \<open>Outbound capture\<close>

text \<open>\<^verbatim>\<open>inputCtx.createScriptProcessor(4096, 1, 1)\<close>\<close>

definition bufferSize :: nat where
  "bufferSize = 4096"

text \<open>
  A script processor node of the Web Audio API with buffer size \<open>n\<close> fires one
  \<open>audioprocess\<close> event for every \<open>n\<close> sample-frames it has taken in; the event's
  \<open>inputBuffer\<close> holds those frames. Frames that do not yet fill a buffer wait.
\<close>

definition audioprocess_events :: "nat \<Rightarrow> 'a list \<Rightarrow> 'a list list" where
  "audioprocess_events n captured =
     map (\<lambda>i. take n (drop (i * n) captured)) [0..<length captured div n]"

text \<open>
  The \<open>onaudioprocess\<close> handler on the list of frames sent so far. \<open>createBlob\<close> is from
  \<open>utils/audioUtils\<close> and is an argument. The volume meter the handler also updates is
  display state and is left out.
  \<^verbatim>\<open>
  const inputData = audioProcessingEvent.inputBuffer.getChannelData(0);
  const pcmBlob = createBlob(inputData);
  sessionPromise.then((session) => { session.sendRealtimeInput({ media: pcmBlob }); });
  \<close>
\<close>

definition onaudioprocess :: "('a list \<Rightarrow> 'blob) \<Rightarrow> 'a list \<Rightarrow> 'blob list \<Rightarrow> 'blob list" where
  "onaudioprocess createBlob inputData sent = sent @ [createBlob inputData]"

text \<open>Everything sent while the microphone delivers \<open>captured\<close>.\<close>

definition capture :: "('a list \<Rightarrow> 'blob) \<Rightarrow> 'a list \<Rightarrow> 'blob list" where
  "capture createBlob captured =
     fold (onaudioprocess createBlob) (audioprocess_events bufferSize captured) []"

subsection \<open>Sample session\<close>

definition connected :: live_session where
  "connected = \<lparr>outputAudioContext = True, outputNode = True, nextStartTime = 0,
     sources = [], created = 0, playback = [], stopped = []\<rparr>"

definition audio_message :: "js_string \<Rightarrow> live_server_message" where
  "audio_message b =
     \<lparr>serverContent = Some \<lparr>modelTurn = Some \<lparr>parts = Some [\<lparr>inlineData = Some \<lparr>data = Some b\<rparr>\<rparr>]\<rparr>,
                              interrupted = None\<rparr>\<rparr>"

definition interrupted_message :: live_server_message where
  "interrupted_message = \<lparr>serverContent = Some \<lparr>modelTurn = None, interrupted = Some True\<rparr>\<rparr>"

definition pcm24k :: "js_string \<Rightarrow> AudioBuffer" where
  "pcm24k b = \<lparr>buf_length = 6000 * length b, buf_sampleRate = 24000\<rparr>"

chapter \<open>The claims\<close>

text \<open>
  Each claim of the specification is stated in words and then as a theorem about the
  definitions above. A theorem with a hypothesis is followed by an instance on sample
  data; a claim that fails as stated is preceded by the input on which it fails.
\<close>

section \<open>Flashcard navigation stays in bounds\<close>

lemma js_rem_nonneg: "0 \<le> a \<Longrightarrow> 0 < n \<Longrightarrow> js_rem a n = a mod n"
  by (cases "a = 0") (simp_all add: js_rem_def)

lemma handleNext_mod:
  assumes "in_bounds words i"
  shows "handleNext words i = (i + 1) mod int (length words)"
proof -
  have "0 \<le> i + 1" "0 < int (length words)"
    using assms unfolding in_bounds_def by linarith+
  then show ?thesis unfolding handleNext_def by (rule js_rem_nonneg)
qed

lemma handlePrev_mod:
  assumes "in_bounds words i"
  shows "handlePrev words i = (i - 1 + int (length words)) mod int (length words)"
proof -
  have "0 \<le> i - 1 + int (length words)" "0 < int (length words)"
    using assms unfolding in_bounds_def by linarith+
  then show ?thesis unfolding handlePrev_def by (rule js_rem_nonneg)
qed

lemma handleNext_in_bounds:
  assumes "in_bounds words i"
  shows "in_bounds words (handleNext words i)"
proof -
  have "0 < int (length words)" using assms unfolding in_bounds_def by linarith
  then show ?thesis
    unfolding handleNext_mod [OF assms] in_bounds_def
    by (intro conjI pos_mod_sign pos_mod_bound)
qed

lemma handlePrev_in_bounds:
  assumes "in_bounds words i"
  shows "in_bounds words (handlePrev words i)"
proof -
  have "0 < int (length words)" using assms unfolding in_bounds_def by linarith
  then show ?thesis
    unfolding handlePrev_mod [OF assms] in_bounds_def
    by (intro conjI pos_mod_sign pos_mod_bound)
qed

lemma navigate_in_bounds:
  "in_bounds words i \<Longrightarrow> in_bounds words (navigate words steps i)"
  unfolding navigate_def
proof (induction steps arbitrary: i)
  case Nil
  then show ?case by simp
next
  case (Cons s steps)
  have "in_bounds words (nav words s i)"
    using Cons.prems by (cases s) (simp_all add: handleNext_in_bounds handlePrev_in_bounds)
  then show ?case using Cons.IH by simp
qed

lemma handlePrev_handleNext:
  assumes "in_bounds words i"
  shows "handlePrev words (handleNext words i) = i"
proof -
  let ?n = "int (length words)"
  have b: "0 \<le> i" "i < ?n" using assms by (simp_all add: in_bounds_def)
  have "handlePrev words (handleNext words i) = ((i + 1) mod ?n - 1 + ?n) mod ?n"
    using handlePrev_mod [OF handleNext_in_bounds [OF assms]]
    by (simp only: handleNext_mod [OF assms])
  also have "\<dots> = i"
  proof (cases "i + 1 = ?n")
    case True
    then have "(i + 1) mod ?n = 0" by simp
    moreover have "0 - 1 + ?n = i" using True by linarith
    moreover have "i mod ?n = i" using b by simp
    ultimately show ?thesis by (simp only:)
  next
    case False
    then have "i + 1 < ?n" using b by linarith
    then have "(i + 1) mod ?n = i + 1" using b by simp
    then show ?thesis using b by simp
  qed
  finally show ?thesis .
qed

text \<open>
  Claim C9. For every non-empty word list the index stays in \<open>[0, length)\<close> after any
  sequence of next/prev steps, starting from the initial index 0 or from any index in
  bounds, and stepping next and then prev returns to the index it started from.
\<close>

theorem flashcard_navigation:
  "words \<noteq> [] \<Longrightarrow>
     in_bounds words (navigate words steps 0) \<and>
     (in_bounds words i \<longrightarrow>
        in_bounds words (navigate words steps i) \<and>
        handlePrev words (handleNext words i) = i)"
proof -
  assume "words \<noteq> []"
  then have "in_bounds words 0" by (simp add: in_bounds_def)
  then show ?thesis
    by (simp add: navigate_in_bounds handlePrev_handleNext)
qed

theorem flashcard_navigation_witness:
  "[''a'', ''b'', ''c''] \<noteq> [] \<and> in_bounds [''a'', ''b'', ''c''] 2 \<and>
   navigate [''a'', ''b'', ''c''] [Next, Next, Next, Prev, Prev] 0 = 1 \<and>
   in_bounds [''a'', ''b'', ''c''] (navigate [''a'', ''b'', ''c''] [Next, Prev, Prev] 2) \<and>
   handleNext [''a'', ''b'', ''c''] 2 = 0 \<and>
   handlePrev [''a'', ''b'', ''c''] (handleNext [''a'', ''b'', ''c''] 2) = 2"
  using flashcard_navigation [of "[''a'', ''b'', ''c'']" "[Next, Prev, Prev]" 2]
  by (simp add: in_bounds_def navigate_def handleNext_def handlePrev_def js_rem_def)

section \<open>Objects and the word list handlers\<close>

lemma get_set_prop:
  "get_prop (set_prop k v ps) k' = (if k' = k then Some v else get_prop ps k')"
  by (induction ps) (auto simp: get_prop_def)

lemma keys_set_prop:
  "map fst (set_prop k v ps) = (if k \<in> set (map fst ps) then map fst ps else map fst ps @ [k])"
  by (induction ps) (auto simp: rev_image_eqI)

lemma set_prop_new: "k \<notin> set (map fst ps) \<Longrightarrow> set_prop k v ps = ps @ [(k, v)]"
  by (induction ps) auto

lemma wf_set_prop: "wf_object ps \<Longrightarrow> wf_object (set_prop k v ps)"
  by (simp add: wf_object_def keys_set_prop)

lemma spread_append:
  "distinct (map fst (t @ s)) \<Longrightarrow> spread t s = t @ s"
proof (induction s arbitrary: t)
  case Nil
  then show ?case by (simp add: spread_def)
next
  case (Cons p s)
  obtain k v where p: "p = (k, v)" by (cases p)
  have new: "set_prop k v t = t @ [(k, v)]"
    using Cons.prems p by (intro set_prop_new) auto
  have "distinct (map fst ((t @ [(k, v)]) @ s))" using Cons.prems p by simp
  from Cons.IH [OF this] show ?case
    using new p by (simp add: spread_def)
qed

lemma spread_copy: "wf_object w \<Longrightarrow> spread [] w = w"
  using spread_append [of "[]" w] by (simp add: wf_object_def)

lemma wf_spread: "wf_object t \<Longrightarrow> wf_object (spread t s)"
  unfolding spread_def
  by (induction s arbitrary: t) (auto simp: wf_set_prop)

lemma get_spread:
  "wf_object s \<Longrightarrow>
   get_prop (spread t s) k = (case get_prop s k of Some v \<Rightarrow> Some v | None \<Rightarrow> get_prop t k)"
proof (induction s arbitrary: t)
  case Nil
  then show ?case by (simp add: spread_def get_prop_def)
next
  case (Cons p s)
  obtain k' v' where p: "p = (k', v')" by (cases p)
  have wf: "wf_object s" and notin: "k' \<notin> set (map fst s)"
    using Cons.prems p by (simp_all add: wf_object_def)
  have none: "get_prop s k' = None"
    using notin by (simp add: get_prop_def map_of_eq_None_iff)
  have "get_prop (spread t (p # s)) k = get_prop (spread (set_prop k' v' t) s) k"
    by (simp add: spread_def p)
  also have "\<dots> = (case get_prop s k of Some v \<Rightarrow> Some v | None \<Rightarrow> get_prop (set_prop k' v' t) k)"
    by (rule Cons.IH [OF wf])
  also have "\<dots> = (case get_prop (p # s) k of Some v \<Rightarrow> Some v | None \<Rightarrow> get_prop t k)"
  proof (cases "k = k'")
    case True
    then show ?thesis using none by (simp add: get_set_prop p) (simp add: get_prop_def)
  next
    case False
    then show ?thesis
      by (simp add: get_set_prop [unfolded get_prop_def] p get_prop_def split: option.split)
  qed
  finally show ?case .
qed


lemma js_id_neq_addedAt: "js ''id'' \<noteq> js ''addedAt''"
  by (simp add: js_def)

text \<open>
  As stated the claim fails on what the search view passes in: when a mnemonic image has
  been generated, \<open>handleSave\<close> attaches it to the record, the spread in
  \<open>handleSaveWord\<close> copies it, and the saved word has an image reference from the start.
\<close>

theorem handleSaveWord_image_counterexample:
  "handleSave (Some cat_definition) (Some (js ''data:image/png;base64,AA=='')) =
     Some (cat_definition @ [(js ''imageUrl'', JStr (js ''data:image/png;base64,AA==''))]) \<and>
   get_prop (hd (handleSaveWord (js ''u-1'') 1700000000000
       (cat_definition @ [(js ''imageUrl'', JStr (js ''data:image/png;base64,AA==''))]) []))
     (js ''imageUrl'') = Some (JStr (js ''data:image/png;base64,AA==''))"
  by (simp add: handleSave_def handleSaveWord_def newWord_def spread_def cat_definition_def
      get_prop_def js_def)

text \<open>
  Claim C5, amended. The word put at the head of the list has every property of the
  object that was passed in, except that \<open>id\<close> is the generated UUID and \<open>addedAt\<close> is the
  clock reading; nothing else is added, so it has an image or video reference exactly
  when the object passed in had one.
\<close>

theorem handleSaveWord_fields:
  "wf_object wordDef \<Longrightarrow>
     handleSaveWord uuid now wordDef prev = newWord uuid now wordDef # prev \<and>
     wf_object (newWord uuid now wordDef) \<and>
     get_prop (newWord uuid now wordDef) (js ''id'') = Some (JStr uuid) \<and>
     get_prop (newWord uuid now wordDef) (js ''addedAt'') = Some (JNum now) \<and>
     (\<forall>k. k \<noteq> js ''id'' \<and> k \<noteq> js ''addedAt'' \<longrightarrow>
          get_prop (newWord uuid now wordDef) k = get_prop wordDef k)"
  by (simp add: handleSaveWord_def newWord_def get_set_prop spread_copy wf_set_prop js_id_neq_addedAt)

theorem handleSaveWord_fields_witness:
  "wf_object cat_definition \<and>
   handleSaveWord (js ''u-1'') 1700000000000 cat_definition [] =
     [cat_definition @ [(js ''id'', JStr (js ''u-1'')), (js ''addedAt'', JNum 1700000000000)]] \<and>
   get_prop (newWord (js ''u-1'') 1700000000000 cat_definition) (js ''imageUrl'') = None \<and>
   get_prop (newWord (js ''u-1'') 1700000000000 cat_definition) (js ''videoUrl'') = None \<and>
   get_prop (newWord (js ''u-1'') 1700000000000 cat_definition) (js ''word'') = Some (JStr (js ''cat''))"
proof -
  have wf: "wf_object cat_definition"
    by (simp add: wf_object_def cat_definition_def js_def)
  have nw: "newWord (js ''u-1'') 1700000000000 cat_definition =
      cat_definition @ [(js ''id'', JStr (js ''u-1'')), (js ''addedAt'', JNum 1700000000000)]"
    by (simp add: newWord_def spread_def cat_definition_def js_def)
  have g: "get_prop cat_definition (js ''imageUrl'') = None"
      "get_prop cat_definition (js ''videoUrl'') = None"
      "get_prop cat_definition (js ''word'') = Some (JStr (js ''cat''))"
    by (simp_all add: get_prop_def cat_definition_def js_def)
  have n: "js ''imageUrl'' \<noteq> js ''id''" "js ''imageUrl'' \<noteq> js ''addedAt''"
      "js ''videoUrl'' \<noteq> js ''id''" "js ''videoUrl'' \<noteq> js ''addedAt''"
      "js ''word'' \<noteq> js ''id''" "js ''word'' \<noteq> js ''addedAt''"
    by (simp_all add: js_def)
  from handleSaveWord_fields [OF wf, of "js ''u-1''" 1700000000000 "[]"]
  show ?thesis using wf nw g n by simp
qed

lemma handleUpdateWord_length:
  "length (handleUpdateWord ident updates prev) = length prev"
  by (simp add: handleUpdateWord_def)

lemma handleUpdateWord_nth:
  "i < length prev \<Longrightarrow>
   handleUpdateWord ident updates prev ! i =
     (if get_prop (prev ! i) (js ''id'') = Some (JStr ident)
      then spread (spread [] (prev ! i)) updates else prev ! i)"
  by (simp add: handleUpdateWord_def)

lemma handleUpdateWord_no_match:
  "\<forall>w\<in>set prev. get_prop w (js ''id'') \<noteq> Some (JStr ident) \<Longrightarrow>
   handleUpdateWord ident updates prev = prev"
  by (simp add: handleUpdateWord_def map_idI)

lemma handleUpdateWord_changed_matches:
  assumes "i < length prev" "handleUpdateWord ident updates prev ! i \<noteq> prev ! i"
  shows "get_prop (prev ! i) (js ''id'') = Some (JStr ident)"
  using assms by (auto simp: handleUpdateWord_nth split: if_splits)

text \<open>
  Claim C8. \<open>handleUpdateWord\<close> keeps the length and the order of the list; a word whose
  \<open>id\<close> differs is left as it is; a word whose \<open>id\<close> matches gets the update's
  properties on top of its own; with no matching \<open>id\<close> the list is unchanged; and when
  the ids in the list are pairwise distinct at most one word changes.
\<close>

theorem handleUpdateWord_frame:
  "wf_object updates \<Longrightarrow> \<forall>w\<in>set prev. wf_object w \<Longrightarrow>
     length (handleUpdateWord ident updates prev) = length prev \<and>
     (\<forall>i<length prev.
        (get_prop (prev ! i) (js ''id'') \<noteq> Some (JStr ident) \<longrightarrow>
           handleUpdateWord ident updates prev ! i = prev ! i) \<and>
        (get_prop (prev ! i) (js ''id'') = Some (JStr ident) \<longrightarrow>
           (\<forall>k. get_prop (handleUpdateWord ident updates prev ! i) k =
                (case get_prop updates k of Some v \<Rightarrow> Some v
                 | None \<Rightarrow> get_prop (prev ! i) k)))) \<and>
     ((\<forall>w\<in>set prev. get_prop w (js ''id'') \<noteq> Some (JStr ident)) \<longrightarrow>
        handleUpdateWord ident updates prev = prev) \<and>
     (distinct (map (\<lambda>w. get_prop w (js ''id'')) prev) \<longrightarrow>
        (\<forall>i<length prev. \<forall>j<length prev.
            handleUpdateWord ident updates prev ! i \<noteq> prev ! i \<and>
            handleUpdateWord ident updates prev ! j \<noteq> prev ! j \<longrightarrow> i = j))"
proof (intro conjI allI impI)
  assume wfu: "wf_object updates" and wfp: "\<forall>w\<in>set prev. wf_object w"
  show "length (handleUpdateWord ident updates prev) = length prev"
    by (rule handleUpdateWord_length)
  show "handleUpdateWord ident updates prev ! i = prev ! i"
    if "i < length prev" "get_prop (prev ! i) (js ''id'') \<noteq> Some (JStr ident)" for i
    using that by (simp add: handleUpdateWord_nth)
  show "get_prop (handleUpdateWord ident updates prev ! i) k =
          (case get_prop updates k of Some v \<Rightarrow> Some v | None \<Rightarrow> get_prop (prev ! i) k)"
    if "i < length prev" "get_prop (prev ! i) (js ''id'') = Some (JStr ident)" for i k
  proof -
    have "wf_object (prev ! i)" using wfp that(1) by simp
    then have "spread [] (prev ! i) = prev ! i" by (rule spread_copy)
    then show ?thesis using that by (simp add: handleUpdateWord_nth get_spread [OF wfu])
  qed
  show "handleUpdateWord ident updates prev = prev"
    if "\<forall>w\<in>set prev. get_prop w (js ''id'') \<noteq> Some (JStr ident)"
    using that by (rule handleUpdateWord_no_match)
  show "i = j"
    if d: "distinct (map (\<lambda>w. get_prop w (js ''id'')) prev)"
      and i: "i < length prev" and j: "j < length prev"
      and c: "handleUpdateWord ident updates prev ! i \<noteq> prev ! i \<and>
              handleUpdateWord ident updates prev ! j \<noteq> prev ! j" for i j
  proof -
    have "get_prop (prev ! i) (js ''id'') = get_prop (prev ! j) (js ''id'')"
      using handleUpdateWord_changed_matches [OF i, of ident updates]
        handleUpdateWord_changed_matches [OF j, of ident updates] c
      by simp
    then have "map (\<lambda>w. get_prop w (js ''id'')) prev ! i =
               map (\<lambda>w. get_prop w (js ''id'')) prev ! j"
      using i j by simp
    then show ?thesis using d i j by (simp add: nth_eq_iff_index_eq del: nth_map)
  qed
qed

theorem handleUpdateWord_frame_witness:
  "wf_object [(js ''imageUrl'', JStr (js ''data:x''))] \<and>
   list_all wf_object two_words \<and>
   distinct (map (\<lambda>w. get_prop w (js ''id'')) two_words) \<and>
   handleUpdateWord (js ''b'') [(js ''imageUrl'', JStr (js ''data:x''))] two_words =
     [[(js ''word'', JStr (js ''cat'')), (js ''id'', JStr (js ''a''))],
      [(js ''word'', JStr (js ''dog'')), (js ''id'', JStr (js ''b'')),
       (js ''imageUrl'', JStr (js ''data:x''))]] \<and>
   handleUpdateWord (js ''c'') [(js ''imageUrl'', JStr (js ''data:x''))] two_words = two_words"
proof -
  have a: "wf_object [(js ''imageUrl'', JStr (js ''data:x''))]"
    by (simp add: wf_object_def)
  have b: "\<forall>w\<in>set two_words. wf_object w"
    by (simp add: two_words_def wf_object_def js_def)
  have c: "distinct (map (\<lambda>w. get_prop w (js ''id'')) two_words)"
    by (simp add: two_words_def get_prop_def js_def)
  have d: "handleUpdateWord (js ''b'') [(js ''imageUrl'', JStr (js ''data:x''))] two_words =
     [[(js ''word'', JStr (js ''cat'')), (js ''id'', JStr (js ''a''))],
      [(js ''word'', JStr (js ''dog'')), (js ''id'', JStr (js ''b'')),
       (js ''imageUrl'', JStr (js ''data:x''))]]"
    by (simp add: handleUpdateWord_def two_words_def get_prop_def spread_def js_def)
  have e: "\<forall>w\<in>set two_words. get_prop w (js ''id'') \<noteq> Some (JStr (js ''c''))"
    by (simp add: two_words_def get_prop_def js_def)
  from handleUpdateWord_frame [OF a b, of "js ''c''"] e
  have "handleUpdateWord (js ''c'') [(js ''imageUrl'', JStr (js ''data:x''))] two_words = two_words"
    by blast
  then show ?thesis using a b c d by (simp add: list_all_iff)
qed

section \<open>JSON round trip\<close>

subsection \<open>Strings\<close>

lemma unat_unit: "n < 65536 \<Longrightarrow> unat (of_nat n :: 16 word) = n"
  by (simp add: unat_of_nat)

lemma hex_value_hex_digit: "d < 16 \<Longrightarrow> hex_value (hex_digit d) = Some d"
  by (simp add: hex_value_def hex_digit_def word_le_nat_alt unat_unit)

lemma nibbles:
  fixes n :: nat
  shows "n div 4096 * 4096 + n div 256 mod 16 * 256 + n div 16 mod 16 * 16 + n mod 16 = n"
proof -
  have a: "n div 256 = n div 16 div 16" by (simp add: div_mult2_eq)
  have b: "n div 4096 = n div 16 div 16 div 16" by (simp add: div_mult2_eq)
  have 1: "n = n div 16 * 16 + n mod 16" by simp
  have 2: "n div 16 = n div 16 div 16 * 16 + n div 16 mod 16" by simp
  have 3: "n div 16 div 16 = n div 16 div 16 div 16 * 16 + n div 16 div 16 mod 16" by simp
  show ?thesis unfolding a b using 1 2 3 by linarith
qed

lemma hex4_unicode_escape:
  "hex4 (hex_digit (unat c div 4096)) (hex_digit (unat c div 256 mod 16))
        (hex_digit (unat c div 16 mod 16)) (hex_digit (unat c mod 16)) = Some c"
proof -
  have lt: "unat c < 65536" using unsigned_less [of c] by simp
  then have d3: "unat c div 4096 < 16" by simp
  have inv: "(of_nat (unat c) :: 16 word) = c" by simp
  show ?thesis
    unfolding hex4_def hex_value_hex_digit [OF d3]
    by (simp only: hex_value_hex_digit mod_less_divisor zero_less_numeral nibbles inv
        prod.case option.case)
qed

lemma parse_string_unicode_escape:
  "parse_string (unicode_escape c @ cs) = cons_unit c (parse_string cs)"
  by (simp add: unicode_escape_def hex4_unicode_escape)


lemma trailing_surrogate_plain:
  "is_trailing_surrogate d \<Longrightarrow> d \<noteq> 0x22 \<and> d \<noteq> 0x5C \<and> \<not> d < 0x20"
  by (auto simp: is_trailing_surrogate_def word_le_nat_alt word_less_nat_alt)

lemma parse_string_plain:
  "c \<noteq> 0x22 \<Longrightarrow> c \<noteq> 0x5C \<Longrightarrow> \<not> c < 0x20 \<Longrightarrow>
   parse_string (c # cs) = cons_unit c (parse_string cs)"
  by simp

lemma parse_string_simple_escape:
  "simple_escape e = Some u \<Longrightarrow> e \<noteq> 0x75 \<Longrightarrow>
   parse_string (0x5C # e # cs) = cons_unit u (parse_string cs)"
  by simp

lemma parse_string_quote: "parse_string (0x22 # cs) = Some ([], cs)"
  by simp

lemma parse_quote_units:
  "parse_string (quote_units s @ 0x22 # rest) = Some (s, rest)"
proof (induction s rule: quote_units.induct)
  case 1
  show ?case by simp
next
  case (2 c cs)
  note parse_string.simps [simp del]
  consider (bs) "c = 0x08" | (ht) "c = 0x09" | (lf) "c = 0x0A" | (ff) "c = 0x0C" | (cr) "c = 0x0D"
    | (quote) "c = 0x22" | (backslash) "c = 0x5C"
    | (control) "c \<noteq> 0x08" "c \<noteq> 0x09" "c \<noteq> 0x0A" "c \<noteq> 0x0C" "c \<noteq> 0x0D"
        "c \<noteq> 0x22" "c \<noteq> 0x5C" "c < 0x20"
    | (pair) d ds where "c \<noteq> 0x08" "c \<noteq> 0x09" "c \<noteq> 0x0A" "c \<noteq> 0x0C" "c \<noteq> 0x0D"
        "c \<noteq> 0x22" "c \<noteq> 0x5C" "\<not> c < 0x20" "is_leading_surrogate c"
        "cs = d # ds" "is_trailing_surrogate d"
    | (lone_leading) "c \<noteq> 0x08" "c \<noteq> 0x09" "c \<noteq> 0x0A" "c \<noteq> 0x0C" "c \<noteq> 0x0D"
        "c \<noteq> 0x22" "c \<noteq> 0x5C" "\<not> c < 0x20" "is_leading_surrogate c"
        "cs = [] \<or> \<not> is_trailing_surrogate (hd cs)"
    | (lone_trailing) "c \<noteq> 0x08" "c \<noteq> 0x09" "c \<noteq> 0x0A" "c \<noteq> 0x0C" "c \<noteq> 0x0D"
        "c \<noteq> 0x22" "c \<noteq> 0x5C" "\<not> c < 0x20" "\<not> is_leading_surrogate c"
        "is_trailing_surrogate c"
    | (plain) "c \<noteq> 0x08" "c \<noteq> 0x09" "c \<noteq> 0x0A" "c \<noteq> 0x0C" "c \<noteq> 0x0D"
        "c \<noteq> 0x22" "c \<noteq> 0x5C" "\<not> c < 0x20" "\<not> is_leading_surrogate c"
        "\<not> is_trailing_surrogate c"
    by (cases cs) auto
  then show ?case
  proof cases
    case bs
    then show ?thesis using "2.IH"(1)
      by (simp add: parse_string_simple_escape simple_escape_def cons_unit_def)
  next
    case ht
    then show ?thesis using "2.IH"(2)
      by (simp add: parse_string_simple_escape simple_escape_def cons_unit_def)
  next
    case lf
    then show ?thesis using "2.IH"(3)
      by (simp add: parse_string_simple_escape simple_escape_def cons_unit_def)
  next
    case ff
    then show ?thesis using "2.IH"(4)
      by (simp add: parse_string_simple_escape simple_escape_def cons_unit_def)
  next
    case cr
    then show ?thesis using "2.IH"(5)
      by (simp add: parse_string_simple_escape simple_escape_def cons_unit_def)
  next
    case quote
    then show ?thesis using "2.IH"(6)
      by (simp add: parse_string_simple_escape simple_escape_def cons_unit_def)
  next
    case backslash
    then show ?thesis using "2.IH"(7)
      by (simp add: parse_string_simple_escape simple_escape_def cons_unit_def)
  next
    case control
    then show ?thesis using "2.IH"(8)
      by (simp add: parse_string_unicode_escape cons_unit_def)
  next
    case pair
    then show ?thesis using "2.IH"(9) trailing_surrogate_plain [of d]
      by (simp add: parse_string_plain cons_unit_def)
  next
    case lone_leading
    then show ?thesis using "2.IH"(10)
      by (cases cs) (simp_all add: parse_string_unicode_escape parse_string_quote cons_unit_def)
  next
    case lone_trailing
    then show ?thesis using "2.IH"(11)
      by (simp add: parse_string_unicode_escape cons_unit_def)
  next
    case plain
    then show ?thesis using "2.IH"(12)
      by (simp add: parse_string_plain cons_unit_def)
  qed
qed

lemma parse_QuoteJSONString:
  "parse_string (tl (QuoteJSONString s) @ rest) = Some (s, rest)"
  by (simp add: QuoteJSONString_def parse_quote_units)

subsection \<open>Numbers\<close>

lemma is_digit_alt: "is_digit c \<longleftrightarrow> 48 \<le> unat c \<and> unat c \<le> 57"
  by (simp add: is_digit_def word_le_nat_alt)

lemma unat_digit_unit: "m < 10 \<Longrightarrow> unat (48 + of_nat m :: 16 word) = 48 + m"
  using unat_unit [of "48 + m"] by simp

lemma digit_unit: "m < 10 \<Longrightarrow> is_digit (of_nat (48 + m))"
  by (simp add: is_digit_alt unat_digit_unit)

lemma digits_nonempty: "digits n \<noteq> []"
  by (subst digits.simps) simp

lemma digits_are_digits: "d \<in> set (digits n) \<Longrightarrow> is_digit d"
proof (induction n arbitrary: d rule: digits.induct)
  case (1 n)
  show ?case
  proof (cases "n < 10")
    case True
    then show ?thesis using "1.prems" digit_unit [of n] by (subst (asm) digits.simps) simp
  next
    case False
    have "n mod 10 < 10" by simp
    then have "is_digit (of_nat (48 + n mod 10))" by (rule digit_unit)
    then show ?thesis using False "1.prems" "1.IH"
      by (subst (asm) digits.simps) auto
  qed
qed

lemma digits_value_snoc:
  "digits_value (ds @ [d]) = 10 * digits_value ds + (unat d - 48)"
  by (simp add: digits_value_def)

lemma digits_value_digits: "digits_value (digits n) = n"
proof (induction n rule: digits.induct)
  case (1 n)
  show ?case
  proof (cases "n < 10")
    case True
    then show ?thesis
      by (subst digits.simps) (simp add: digits_value_def unat_digit_unit)
  next
    case False
    have "digits_value (digits n) = 10 * digits_value (digits (n div 10)) + n mod 10"
      using False
      by (subst digits.simps) (simp add: digits_value_snoc unat_digit_unit)
    then show ?thesis using False "1.IH" by simp
  qed
qed

lemma hd_digits: "0 < n \<Longrightarrow> hd (digits n) \<noteq> 0x30"
proof (induction n rule: digits.induct)
  case (1 n)
  show ?case
  proof (cases "n < 10")
    case True
    have "unat (of_nat (48 + n) :: 16 word) = 48 + n" using True by (simp add: unat_digit_unit)
    then have "(of_nat (48 + n) :: 16 word) \<noteq> 0x30" using "1.prems" by auto
    then show ?thesis using True by (subst digits.simps) simp
  next
    case False
    then have "0 < n div 10" by simp
    then have "hd (digits (n div 10)) \<noteq> 0x30" using False "1.IH" by simp
    then show ?thesis using False digits_nonempty [of "n div 10"]
      by (subst digits.simps) simp
  qed
qed

lemma tl_digits_zero: "tl (digits 0) = []"
  by (subst digits.simps) simp

lemma takeWhile_digits:
  assumes "ends_number rest"
  shows "takeWhile is_digit (digits n @ rest) = digits n"
    and "dropWhile is_digit (digits n @ rest) = rest"
proof -
  have all: "\<forall>d\<in>set (digits n). is_digit d" by (simp add: digits_are_digits)
  have r: "takeWhile is_digit rest = []" "dropWhile is_digit rest = rest"
    using assms by (cases rest; simp add: ends_number_def)+
  show "takeWhile is_digit (digits n @ rest) = digits n"
    using all r by (simp add: takeWhile_append2)
  show "dropWhile is_digit (digits n @ rest) = rest"
    using all r by (simp add: dropWhile_append2)
qed

lemma is_digit_not_minus: "is_digit c \<Longrightarrow> c \<noteq> 0x2D"
  by (auto simp: is_digit_alt)

lemma parse_number_digits:
  assumes "ends_number rest" "int m \<le> MAX_SAFE_INTEGER"
  shows "parse_number (digits m @ rest) = Parsed (int m) rest"
proof -
  obtain d ds where d: "digits m = d # ds" using digits_nonempty [of m] by (cases "digits m") auto
  have "is_digit d" using digits_are_digits [of d m] d by simp
  then have nm: "d \<noteq> 0x2D" by (rule is_digit_not_minus)
  have lead: "\<not> (hd (digits m) = 0x30 \<and> tl (digits m) \<noteq> [])"
    using hd_digits [of m] tl_digits_zero by (cases "m = 0") auto
  have nc: "\<not> number_continues rest"
    using assms(1) by (cases rest) (auto simp: ends_number_def number_continues_def)
  have neg: "(case digits m @ rest of [] \<Rightarrow> False | c # _ \<Rightarrow> c = 0x2D) = False"
    using nm by (simp add: d)
  show ?thesis
    unfolding parse_number_def neg Let_def
    using lead nc assms(2) digits_nonempty [of m]
    by (simp add: takeWhile_digits [OF assms(1)] digits_value_digits)
qed

lemma parse_number_minus_digits:
  assumes "ends_number rest" "int m \<le> MAX_SAFE_INTEGER"
  shows "parse_number (0x2D # digits m @ rest) = Parsed (- int m) rest"
proof -
  have lead: "\<not> (hd (digits m) = 0x30 \<and> tl (digits m) \<noteq> [])"
    using hd_digits [of m] tl_digits_zero by (cases "m = 0") auto
  have nc: "\<not> number_continues rest"
    using assms(1) by (cases rest) (auto simp: ends_number_def number_continues_def)
  show ?thesis
    unfolding parse_number_def Let_def
    using lead nc assms(2) digits_nonempty [of m]
    by (simp add: takeWhile_digits [OF assms(1)] digits_value_digits)
qed

lemma parse_number_to_string:
  assumes "ends_number rest" "\<bar>n\<bar> \<le> MAX_SAFE_INTEGER"
  shows "parse_number (number_to_string n @ rest) = Parsed n rest"
proof (cases "n < 0")
  case True
  then have "int (nat (- n)) \<le> MAX_SAFE_INTEGER" using assms(2) by simp
  from parse_number_minus_digits [OF assms(1) this] True
  show ?thesis by (simp add: number_to_string_def)
next
  case False
  then have "int (nat n) \<le> MAX_SAFE_INTEGER" using assms(2) by simp
  from parse_number_digits [OF assms(1) this] False
  show ?thesis by (simp add: number_to_string_def)
qed

subsection \<open>Values\<close>

lemma is_digit_other:
  assumes "is_digit c"
  shows "c \<noteq> 0x22" "c \<noteq> 0x5B" "c \<noteq> 0x7B" "c \<noteq> 0x74" "c \<noteq> 0x66" "c \<noteq> 0x6E"
    "c \<noteq> 0x5D" "c \<noteq> 0x7D" "c \<noteq> 0x2C" "\<not> is_ws c"
  using assms by (auto simp: is_digit_alt is_ws_def)

lemma value_start_other:
  assumes "value_start c"
  shows "\<not> is_ws c" "c \<noteq> 0x5D" "c \<noteq> 0x7D" "c \<noteq> 0x2C"
  using assms is_digit_other [of c] by (auto simp: value_start_def is_ws_def)

lemma skip_ws_start: "value_start c \<Longrightarrow> skip_ws (c # cs) = c # cs"
  by (simp add: value_start_other)

lemma number_to_string_start:
  "\<exists>c cs. number_to_string n = c # cs \<and> (c = 0x2D \<or> is_digit c)"
proof (cases "n < 0")
  case True
  then show ?thesis by (simp add: number_to_string_def)
next
  case False
  obtain d ds where d: "digits (nat n) = d # ds"
    using digits_nonempty [of "nat n"] by (cases "digits (nat n)") auto
  then have "is_digit d" using digits_are_digits [of d "nat n"] by simp
  then show ?thesis using False d by (simp add: number_to_string_def)
qed

lemma stringify_value_start: "\<exists>c cs. stringify_value v = c # cs \<and> value_start c"
proof (cases v)
  case (JNum n)
  then show ?thesis using number_to_string_start [of n] by (auto simp: value_start_def)
qed (auto simp: value_start_def js_def QuoteJSONString_def)

lemma stringify_elements_start:
  "vs \<noteq> [] \<Longrightarrow> \<exists>c cs. stringify_elements vs = c # cs \<and> value_start c"
  using stringify_value_start [of "hd vs"] by (cases vs) auto

lemma stringify_members_start:
  "ps \<noteq> [] \<Longrightarrow> \<exists>cs. stringify_members ps = 0x22 # cs"
  by (cases ps) (auto simp: QuoteJSONString_def)

lemma ends_number_simps:
  "ends_number []" "ends_number (0x2C # cs)" "ends_number (0x5D # cs)" "ends_number (0x7D # cs)"
  by (simp_all add: ends_number_def is_digit_def)

lemma parse_value_JNull: "parse_value (Suc m) (js ''null'' @ rest) = Parsed JNull rest"
  by (simp add: js_def literal_def)

lemma parse_value_JBool:
  "parse_value (Suc m) ((if b then js ''true'' else js ''false'') @ rest) = Parsed (JBool b) rest"
  by (simp add: js_def literal_def)

lemma parse_value_JStr:
  "parse_value (Suc m) (QuoteJSONString s @ rest) = Parsed (JStr s) rest"
  by (simp add: QuoteJSONString_def parse_quote_units)

lemma parse_value_JNum:
  assumes "ends_number rest" "\<bar>n\<bar> \<le> MAX_SAFE_INTEGER"
  shows "parse_value (Suc m) (number_to_string n @ rest) = Parsed (JNum n) rest"
proof -
  obtain c cs where c: "number_to_string n = c # cs" "c = 0x2D \<or> is_digit c"
    using number_to_string_start [of n] by blast
  have other: "c \<noteq> 0x22" "c \<noteq> 0x5B" "c \<noteq> 0x7B" "c \<noteq> 0x74" "c \<noteq> 0x66" "c \<noteq> 0x6E"
    using c(2) is_digit_other [of c] by auto
  have "parse_number (c # cs @ rest) = Parsed n rest"
    using parse_number_to_string [OF assms] c(1) by simp
  then show ?thesis using other c by simp
qed

lemma parse_value_JArr:
  assumes "vs \<noteq> [] \<Longrightarrow> parse_elements m (stringify_elements vs @ 0x5D # rest) = Parsed vs rest"
  shows "parse_value (Suc m) (stringify_value (JArr vs) @ rest) = Parsed (JArr vs) rest"
proof (cases "vs = []")
  case True
  then show ?thesis by (simp add: is_ws_def)
next
  case False
  then obtain c cs where c: "stringify_elements vs = c # cs" "value_start c"
    using stringify_elements_start by blast
  have "parse_elements m (c # cs @ 0x5D # rest) = Parsed vs rest"
    using assms False c(1) by simp
  then show ?thesis
    using c value_start_other [OF c(2)] by simp
qed

lemma parse_value_JObj:
  assumes "ps \<noteq> [] \<Longrightarrow> parse_members m (stringify_members ps @ 0x7D # rest) = Parsed ps rest"
    and "wf_object ps"
  shows "parse_value (Suc m) (stringify_value (JObj ps) @ rest) = Parsed (JObj ps) rest"
proof (cases "ps = []")
  case True
  then show ?thesis by (simp add: is_ws_def)
next
  case False
  then obtain cs where c: "stringify_members ps = 0x22 # cs"
    using stringify_members_start by blast
  have "parse_members m (0x22 # cs @ 0x7D # rest) = Parsed ps rest"
    using assms(1) False c by simp
  moreover have "spread [] ps = ps" using assms(2) by (rule spread_copy)
  ultimately show ?thesis
    using c by (simp add: is_ws_def)
qed

lemma parse_elements_Cons:
  assumes "parse_value m (stringify_value v @ (if vs = [] then [] else 0x2C # stringify_elements vs) @ 0x5D # rest)
             = Parsed v ((if vs = [] then [] else 0x2C # stringify_elements vs) @ 0x5D # rest)"
    and "vs \<noteq> [] \<Longrightarrow> parse_elements m (stringify_elements vs @ 0x5D # rest) = Parsed vs rest"
  shows "parse_elements (Suc m) (stringify_elements (v # vs) @ 0x5D # rest) = Parsed (v # vs) rest"
proof (cases "vs = []")
  case True
  then show ?thesis using assms(1) by (simp add: is_ws_def)
next
  case False
  then obtain c cs where c: "stringify_elements vs = c # cs" "value_start c"
    using stringify_elements_start by blast
  have "parse_elements m (c # cs @ 0x5D # rest) = Parsed vs rest"
    using assms(2) False c(1) by simp
  then show ?thesis
    using assms(1) False c(1) skip_ws_start [OF c(2)] by (simp add: is_ws_def)
qed

lemma parse_members_Cons:
  assumes "parse_value m (stringify_value v @ (if ps = [] then [] else 0x2C # stringify_members ps) @ 0x7D # rest)
             = Parsed v ((if ps = [] then [] else 0x2C # stringify_members ps) @ 0x7D # rest)"
    and "ps \<noteq> [] \<Longrightarrow> parse_members m (stringify_members ps @ 0x7D # rest) = Parsed ps rest"
  shows "parse_members (Suc m) (stringify_members ((k, v) # ps) @ 0x7D # rest) = Parsed ((k, v) # ps) rest"
proof -
  obtain c cs where c: "stringify_value v = c # cs" "value_start c"
    using stringify_value_start by blast
  have key: "parse_string (quote_units k @ 0x22 # 0x3A # stringify_value v @
        (if ps = [] then [] else 0x2C # stringify_members ps) @ 0x7D # rest)
      = Some (k, 0x3A # stringify_value v @
        (if ps = [] then [] else 0x2C # stringify_members ps) @ 0x7D # rest)"
    by (rule parse_quote_units)
  show ?thesis
  proof (cases "ps = []")
    case True
    then show ?thesis
      using assms(1) key c(1) skip_ws_start [OF c(2)]
      by (simp add: QuoteJSONString_def is_ws_def)
  next
    case False
    then obtain ms where ms: "stringify_members ps = 0x22 # ms"
      using stringify_members_start by blast
    have "parse_members m (0x22 # ms @ 0x7D # rest) = Parsed ps rest"
      using assms(2) False ms by simp
    then show ?thesis
      using assms(1) key c(1) skip_ws_start [OF c(2)] False ms
      by (simp add: QuoteJSONString_def is_ws_def)
  qed
qed

lemma parse_stringify:
  "wf_value v \<Longrightarrow> fuel_value v < n \<Longrightarrow> ends_number rest \<Longrightarrow>
     parse_value n (stringify_value v @ rest) = Parsed v rest"
  "vs \<noteq> [] \<Longrightarrow> wf_elements vs \<Longrightarrow> fuel_elements vs < n \<Longrightarrow>
     parse_elements n (stringify_elements vs @ 0x5D # rest) = Parsed vs rest"
  "ps \<noteq> [] \<Longrightarrow> wf_members ps \<Longrightarrow> fuel_members ps < n \<Longrightarrow>
     parse_members n (stringify_members ps @ 0x7D # rest) = Parsed ps rest"
proof (induction v and vs and ps arbitrary: n rest and n rest and n rest
    rule: stringify_value_stringify_elements_stringify_members.induct)
  case 1
  then obtain m where "n = Suc m" by (cases n) auto
  then show ?case using parse_value_JNull by simp
next
  case (2 b)
  then obtain m where "n = Suc m" by (cases n) auto
  then show ?case using parse_value_JBool [of m b rest] by simp
next
  case (3 i)
  then obtain m where "n = Suc m" by (cases n) auto
  then show ?case using parse_value_JNum [of rest i m] 3 by simp
next
  case (4 s)
  then obtain m where "n = Suc m" by (cases n) auto
  then show ?case using parse_value_JStr [of m s rest] by simp
next
  case (5 vs)
  then obtain m where m: "n = Suc m" by (cases n) auto
  have "parse_elements m (stringify_elements vs @ 0x5D # rest) = Parsed vs rest" if "vs \<noteq> []"
    using that 5 m by simp
  from parse_value_JArr [OF this] show ?case unfolding m by simp
next
  case (6 ps)
  then obtain m where m: "n = Suc m" by (cases n) auto
  have "parse_members m (stringify_members ps @ 0x7D # rest) = Parsed ps rest" if "ps \<noteq> []"
    using that 6 m by simp
  from parse_value_JObj [OF this] 6 show ?case unfolding m by simp
next
  case 7
  then show ?case by simp
next
  case (8 v vs)
  then obtain m where m: "n = Suc m" by (cases n) auto
  have fv: "fuel_value v < m" and wv: "wf_value v" using 8 m by simp_all
  have en: "ends_number ((if vs = [] then [] else 0x2C # stringify_elements vs) @ 0x5D # rest)"
    by (simp add: ends_number_simps)
  note a = "8.IH"(1) [OF wv fv en]
  have b: "parse_elements m (stringify_elements vs @ 0x5D # rest) = Parsed vs rest" if "vs \<noteq> []"
    using "8.IH"(2) [OF that that] 8 m by simp
  from parse_elements_Cons [OF a b] show ?case unfolding m by simp
next
  case 9
  then show ?case by simp
next
  case (10 k v ps)
  then obtain m where m: "n = Suc m" by (cases n) auto
  have fv: "fuel_value v < m" and wv: "wf_value v" using 10 m by simp_all
  have en: "ends_number ((if ps = [] then [] else 0x2C # stringify_members ps) @ 0x7D # rest)"
    by (simp add: ends_number_simps)
  note a = "10.IH"(1) [OF wv fv en]
  have b: "parse_members m (stringify_members ps @ 0x7D # rest) = Parsed ps rest" if "ps \<noteq> []"
    using "10.IH"(2) [OF that that] 10 m by simp
  from parse_members_Cons [OF a b] show ?case unfolding m by simp
qed

lemma fuel_le_length:
  "fuel_value v \<le> length (stringify_value v)"
  "fuel_elements vs \<le> Suc (length (stringify_elements vs))"
  "fuel_members ps \<le> Suc (length (stringify_members ps))"
  by (induction v and vs and ps
      rule: stringify_value_stringify_elements_stringify_members.induct) auto

lemma JSON_round_trip: "wf_value v \<Longrightarrow> JSON_parse (JSON_stringify v) = Returns v"
proof -
  assume wf: "wf_value v"
  obtain c cs where c: "stringify_value v = c # cs" "value_start c"
    using stringify_value_start by blast
  have "fuel_value v < Suc (2 * length (stringify_value v))"
    using fuel_le_length(1) [of v] by simp
  from parse_stringify(1) [OF wf this, of "[]"]
  have "parse_value (Suc (2 * length (stringify_value v))) (stringify_value v) = Parsed v []"
    by (simp add: ends_number_simps)
  then show ?thesis
    using skip_ws_start [OF c(2), of cs] c(1)
    by (simp add: JSON_parse_def JSON_stringify_def)
qed

subsection \<open>The parser never runs out of fuel\<close>

lemma cons_unit_Some:
  "cons_unit u r = Some (s, rest) \<Longrightarrow> \<exists>s'. r = Some (s', rest)"
  by (cases r) (auto simp: cons_unit_def)

lemma parse_string_shorter:
  "parse_string cs = Some (s, rest) \<Longrightarrow> length rest < length cs"
proof (induction cs arbitrary: s rule: parse_string.induct)
  case 1
  then show ?case by simp
next
  case (2 c cs)
  show ?case
  proof (cases "c = 0x22")
    case True
    then show ?thesis using "2.prems" by simp
  next
    case quote: False
    show ?thesis
    proof (cases "c = 0x5C")
      case False
      then have "c \<noteq> 0x5C" .
      with quote "2.prems" have "\<not> c < 0x20" and "cons_unit c (parse_string cs) = Some (s, rest)"
        by (auto split: if_splits)
      then obtain s' where "parse_string cs = Some (s', rest)"
        using cons_unit_Some by blast
      then show ?thesis using "2.IH"(3) quote False \<open>\<not> c < 0x20\<close> by fastforce
    next
      case True
      then obtain e cs1 where cs: "cs = e # cs1"
        using "2.prems" quote by (cases cs) auto
      show ?thesis
      proof (cases "e = 0x75")
        case False
        then obtain u where u: "simple_escape e = Some u"
          and "cons_unit u (parse_string cs1) = Some (s, rest)"
          using "2.prems" quote True cs by (auto split: option.splits)
        then obtain s' where "parse_string cs1 = Some (s', rest)"
          using cons_unit_Some by blast
        then show ?thesis using "2.IH"(2) [OF quote True cs False u] cs by fastforce
      next
        case u: True
        then obtain h3 h2 h1 h0 cs2 where cs1: "cs1 = h3 # h2 # h1 # h0 # cs2"
          using "2.prems" quote True cs by (auto split: list.splits)
        then obtain w where w: "hex4 h3 h2 h1 h0 = Some w"
          and "cons_unit w (parse_string cs2) = Some (s, rest)"
          using "2.prems" quote True cs u by (auto split: option.splits)
        then obtain s' where "parse_string cs2 = Some (s', rest)"
          using cons_unit_Some by blast
        then show ?thesis
          using "2.IH"(1) [OF quote True cs u cs1 _ _ _ w] cs cs1 by fastforce
      qed
    qed
  qed
qed

lemma skip_ws_length: "length (skip_ws cs) \<le> length cs"
  by (induction cs) auto

lemma skip_ws_Cons_length: "skip_ws cs = d # r \<Longrightarrow> length r < length cs"
  using skip_ws_length [of cs] by simp

lemma parse_number_shorter:
  "parse_number cs = Parsed i rest \<Longrightarrow> length rest < length cs"
proof -
  assume a: "parse_number cs = Parsed i rest"
  define cs1 where "cs1 = (if (case cs of [] \<Rightarrow> False | c # _ \<Rightarrow> c = 0x2D) then tl cs else cs)"
  have r: "rest = dropWhile is_digit cs1" and ne: "takeWhile is_digit cs1 \<noteq> []"
    using a by (auto simp: parse_number_def Let_def cs1_def split: if_splits)
  have "length (takeWhile is_digit cs1) + length (dropWhile is_digit cs1) = length cs1"
    by (metis length_append takeWhile_dropWhile_id)
  then have "length rest < length cs1" using ne r by (cases "takeWhile is_digit cs1") auto
  moreover have "length cs1 \<le> length cs" by (simp add: cs1_def)
  ultimately show ?thesis by simp
qed

lemma parse_number_fuel: "parse_number cs \<noteq> OutOfFuel"
  by (simp add: parse_number_def Let_def)

lemma literal_shorter:
  "literal w v cs = Parsed v' rest \<Longrightarrow> w \<noteq> [] \<Longrightarrow> length rest < length cs"
proof -
  assume a: "literal w v cs = Parsed v' rest" and w: "w \<noteq> []"
  then have t: "take (length w) cs = w" and r: "rest = drop (length w) cs"
    by (auto simp: literal_def split: if_splits)
  have "length (take (length w) cs) = length w" using t by simp
  then have "length w \<le> length cs" by simp
  then show ?thesis using w r by (cases w) auto
qed

lemma literal_fuel: "literal w v cs \<noteq> OutOfFuel"
  by (simp add: literal_def)


lemma parse_shorter_all:
  "(\<forall>cs v rest. parse_value n cs = Parsed v rest \<longrightarrow> length rest < length cs) \<and>
   (\<forall>cs vs rest. parse_elements n cs = Parsed vs rest \<longrightarrow> length rest < length cs) \<and>
   (\<forall>cs ps rest. parse_members n cs = Parsed ps rest \<longrightarrow> length rest < length cs)"
proof (induction n)
  case 0
  show ?case by simp
next
  case (Suc n)
  then have v: "\<And>cs v rest. parse_value n cs = Parsed v rest \<Longrightarrow> length rest < length cs"
    and e: "\<And>cs vs rest. parse_elements n cs = Parsed vs rest \<Longrightarrow> length rest < length cs"
    and m: "\<And>cs ps rest. parse_members n cs = Parsed ps rest \<Longrightarrow> length rest < length cs"
    by blast+
  have 1: "length rest < length cs" if asm: "parse_value (Suc n) cs = Parsed v rest" for cs v rest
  proof (cases cs)
    case Nil
    then show ?thesis using asm by simp
  next
    case (Cons c r)
    consider (str) "c = 0x22" | (arr) "c = 0x5B" | (obj) "c = 0x7B" | (tr) "c = 0x74"
      | (fa) "c = 0x66" | (nu) "c = 0x6E"
      | (num) "c \<noteq> 0x22" "c \<noteq> 0x5B" "c \<noteq> 0x7B" "c \<noteq> 0x74" "c \<noteq> 0x66" "c \<noteq> 0x6E"
      by blast
    then show ?thesis
    proof cases
      case str
      then show ?thesis using asm Cons
        by (auto split: option.splits dest: parse_string_shorter)
    next
      case arr
      show ?thesis
      proof (cases "skip_ws r")
        case Nil
        then show ?thesis using asm Cons arr by simp
      next
        case (Cons d r1)
        have l: "length r1 < length r" using Cons by (rule skip_ws_Cons_length)
        show ?thesis
        proof (cases "d = 0x5D")
          case True
          then show ?thesis using asm \<open>cs = c # r\<close> arr Cons l by simp
        next
          case False
          then obtain vs where "parse_elements n (d # r1) = Parsed vs rest"
            using asm \<open>cs = c # r\<close> arr Cons by (auto split: parse.splits)
          from e [OF this] show ?thesis using l \<open>cs = c # r\<close> by simp
        qed
      qed
    next
      case obj
      show ?thesis
      proof (cases "skip_ws r")
        case Nil
        then show ?thesis using asm Cons obj by simp
      next
        case (Cons d r1)
        have l: "length r1 < length r" using Cons by (rule skip_ws_Cons_length)
        show ?thesis
        proof (cases "d = 0x7D")
          case True
          then show ?thesis using asm \<open>cs = c # r\<close> obj Cons l by simp
        next
          case False
          then obtain ps where "parse_members n (d # r1) = Parsed ps rest"
            using asm \<open>cs = c # r\<close> obj Cons by (auto split: parse.splits)
          from m [OF this] show ?thesis using l \<open>cs = c # r\<close> by simp
        qed
      qed
    next
      case tr
      then have "literal (js ''true'') (JBool True) cs = Parsed v rest"
        using asm Cons by simp
      then show ?thesis by (rule literal_shorter) (simp add: js_def)
    next
      case fa
      then have "literal (js ''false'') (JBool False) cs = Parsed v rest"
        using asm Cons by simp
      then show ?thesis by (rule literal_shorter) (simp add: js_def)
    next
      case nu
      then have "literal (js ''null'') JNull cs = Parsed v rest"
        using asm Cons by simp
      then show ?thesis by (rule literal_shorter) (simp add: js_def)
    next
      case num
      then obtain i where "parse_number cs = Parsed i rest"
        using asm Cons by (auto split: if_splits parse.splits)
      then show ?thesis by (rule parse_number_shorter)
    qed
  qed
  have 2: "length rest < length cs" if asm: "parse_elements (Suc n) cs = Parsed vs rest" for cs vs rest
  proof -
    from asm obtain v r where pv: "parse_value n cs = Parsed v r"
      by (auto split: parse.splits)
    have lr: "length r < length cs" using v [OF pv] .
    from asm pv obtain d r1 where sk: "skip_ws r = d # r1"
      by (auto split: list.splits)
    have l1: "length r1 < length r" using sk by (rule skip_ws_Cons_length)
    show ?thesis
    proof (cases "d = 0x5D")
      case True
      then show ?thesis using asm pv sk lr l1 by simp
    next
      case False
      then obtain vs' where "parse_elements n (skip_ws r1) = Parsed vs' rest"
        using asm pv sk by (auto split: if_splits parse.splits)
      from e [OF this] show ?thesis using lr l1 skip_ws_length [of r1] by simp
    qed
  qed
  have 3: "length rest < length cs" if asm: "parse_members (Suc n) cs = Parsed ps rest" for cs ps rest
  proof -
    from asm obtain q r where cs: "cs = q # r" "q = 0x22"
      by (cases cs) (auto split: if_splits)
    from asm cs obtain k r1 where ps: "parse_string r = Some (k, r1)"
      by (auto split: option.splits)
    have l1: "length r1 < length r" using ps by (rule parse_string_shorter)
    from asm cs ps obtain r2 where sk: "skip_ws r1 = 0x3A # r2"
      by (auto split: list.splits if_splits)
    have l2: "length r2 < length r1" using sk by (rule skip_ws_Cons_length)
    from asm cs ps sk obtain v r3 where pv: "parse_value n (skip_ws r2) = Parsed v r3"
      by (auto split: parse.splits)
    have l3: "length r3 < length r2" using v [OF pv] skip_ws_length [of r2] by simp
    from asm cs ps sk pv obtain d r4 where sk2: "skip_ws r3 = d # r4"
      by (auto split: list.splits)
    have l4: "length r4 < length r3" using sk2 by (rule skip_ws_Cons_length)
    show ?thesis
    proof (cases "d = 0x7D")
      case True
      then show ?thesis using asm cs ps sk pv sk2 l1 l2 l3 l4 by simp
    next
      case False
      then obtain ps' where "parse_members n (skip_ws r4) = Parsed ps' rest"
        using asm cs ps sk pv sk2 by (auto split: if_splits parse.splits)
      from m [OF this] show ?thesis
        using cs l1 l2 l3 l4 skip_ws_length [of r4] by simp
    qed
  qed
  show ?case using 1 2 3 by blast
qed


lemma parse_shorter:
  "parse_value n cs = Parsed v rest \<Longrightarrow> length rest < length cs"
  using parse_shorter_all [of n] by blast

lemma parse_fuel_all:
  "(\<forall>cs. 2 * length cs < n \<longrightarrow> parse_value n cs \<noteq> OutOfFuel) \<and>
   (\<forall>cs. 2 * length cs + 1 < n \<longrightarrow> parse_elements n cs \<noteq> OutOfFuel) \<and>
   (\<forall>cs. 2 * length cs + 1 < n \<longrightarrow> parse_members n cs \<noteq> OutOfFuel)"
proof (induction n)
  case 0
  show ?case by simp
next
  case (Suc n)
  then have v: "\<And>cs. 2 * length cs < n \<Longrightarrow> parse_value n cs \<noteq> OutOfFuel"
    and e: "\<And>cs. 2 * length cs + 1 < n \<Longrightarrow> parse_elements n cs \<noteq> OutOfFuel"
    and m: "\<And>cs. 2 * length cs + 1 < n \<Longrightarrow> parse_members n cs \<noteq> OutOfFuel"
    by blast+
  have 1: "parse_value (Suc n) cs \<noteq> OutOfFuel" if len: "2 * length cs < Suc n" for cs
  proof
    assume asm: "parse_value (Suc n) cs = OutOfFuel"
    then obtain c r where cs: "cs = c # r" by (cases cs) auto
    consider (arr) "c = 0x5B" | (obj) "c = 0x7B"
      | (other) "c \<noteq> 0x5B" "c \<noteq> 0x7B"
      by blast
    then show False
    proof cases
      case arr
      then obtain d r1 where sk: "skip_ws r = d # r1" and d: "d \<noteq> 0x5D"
        and out: "parse_elements n (d # r1) = OutOfFuel"
        using asm cs by (auto split: list.splits if_splits parse.splits)
      have "length (d # r1) \<le> length r" using skip_ws_length [of r] sk by simp
      then have "2 * length (d # r1) + 1 < n" using len cs by simp
      from e [OF this] out show False by simp
    next
      case obj
      then obtain d r1 where sk: "skip_ws r = d # r1" and d: "d \<noteq> 0x7D"
        and out: "parse_members n (d # r1) = OutOfFuel"
        using asm cs by (auto split: list.splits if_splits parse.splits)
      have "length (d # r1) \<le> length r" using skip_ws_length [of r] sk by simp
      then have "2 * length (d # r1) + 1 < n" using len cs by simp
      from m [OF this] out show False by simp
    next
      case other
      then show False
        using asm cs parse_number_fuel [of cs] literal_fuel
        by (auto split: if_splits option.splits parse.splits)
    qed
  qed
  have 2: "parse_elements (Suc n) cs \<noteq> OutOfFuel" if len: "2 * length cs + 1 < Suc n" for cs
  proof
    assume asm: "parse_elements (Suc n) cs = OutOfFuel"
    have nv: "parse_value n cs \<noteq> OutOfFuel" using v [of cs] len by simp
    then obtain val r where pv: "parse_value n cs = Parsed val r"
      using asm by (auto split: parse.splits)
    have lr: "length r < length cs" using pv by (rule parse_shorter)
    from asm pv obtain d r1 where sk: "skip_ws r = d # r1"
      and out: "parse_elements n (skip_ws r1) = OutOfFuel"
      by (auto split: list.splits if_splits parse.splits)
    have "length r1 < length r" using sk by (rule skip_ws_Cons_length)
    then have "2 * length (skip_ws r1) + 1 < n"
      using lr len skip_ws_length [of r1] by simp
    from e [OF this] out show False by simp
  qed
  have 3: "parse_members (Suc n) cs \<noteq> OutOfFuel" if len: "2 * length cs + 1 < Suc n" for cs
  proof
    assume asm: "parse_members (Suc n) cs = OutOfFuel"
    then obtain q r where cs: "cs = q # r" "q = 0x22"
      by (cases cs) (auto split: if_splits)
    from asm cs obtain k r1 where ps: "parse_string r = Some (k, r1)"
      by (auto split: option.splits)
    have l1: "length r1 < length r" using ps by (rule parse_string_shorter)
    from asm cs ps obtain r2 where sk: "skip_ws r1 = 0x3A # r2"
      by (auto split: list.splits if_splits)
    have l2: "length r2 < length r1" using sk by (rule skip_ws_Cons_length)
    have "2 * length (skip_ws r2) < n"
      using len cs l1 l2 skip_ws_length [of r2] by simp
    then have nv: "parse_value n (skip_ws r2) \<noteq> OutOfFuel" by (rule v)
    then obtain val r3 where pv: "parse_value n (skip_ws r2) = Parsed val r3"
      using asm cs ps sk by (auto split: parse.splits)
    have l3: "length r3 < length r2"
      using parse_shorter [OF pv] skip_ws_length [of r2] by simp
    from asm cs ps sk pv obtain d r4 where sk2: "skip_ws r3 = d # r4"
      and out: "parse_members n (skip_ws r4) = OutOfFuel"
      by (auto split: list.splits if_splits parse.splits)
    have "length r4 < length r3" using sk2 by (rule skip_ws_Cons_length)
    then have "2 * length (skip_ws r4) + 1 < n"
      using len cs l1 l2 l3 skip_ws_length [of r4] by simp
    from m [OF this] out show False by simp
  qed
  show ?case using 1 2 3 by blast
qed

lemma parse_value_enough_fuel: "parse_value (Suc (2 * length cs)) (skip_ws cs) \<noteq> OutOfFuel"
proof -
  have "2 * length (skip_ws cs) < Suc (2 * length cs)"
    using skip_ws_length [of cs] by simp
  then show ?thesis using parse_fuel_all [of "Suc (2 * length cs)"] by blast
qed

text \<open>The recursive equations for fuel written as a numeral, for evaluating the parser.\<close>

lemmas parse_numeral =
  parse_value.simps(2) [where n = "pred_numeral k" for k, folded numeral_eq_Suc]
  parse_elements.simps(2) [where n = "pred_numeral k" for k, folded numeral_eq_Suc]
  parse_members.simps(2) [where n = "pred_numeral k" for k, folded numeral_eq_Suc]

section \<open>Persistence of the word list\<close>

lemma wf_elements_iff: "wf_elements vs \<longleftrightarrow> (\<forall>v\<in>set vs. wf_value v)"
  by (induction vs) auto

lemma JSON_stringify_nonempty: "JSON_stringify v \<noteq> []"
  using stringify_value_start [of v] by (auto simp: JSON_stringify_def)

lemma load_save:
  assumes "wf_value v"
  shows "load_effect (save_effect v localStorage) savedWords = Returns v"
  using JSON_round_trip [OF assms]
  by (simp add: load_effect_def save_effect_def JSON_stringify_nonempty)

text \<open>
  Claim C6. After a change of the word list the whole list, as one JSON text, is the
  value of the single key \<open>STORAGE_KEY\<close> and no other key of the store has changed; and
  the load effect run on that store gives back the same list, whatever the state was
  before. The list is any list of objects with distinct keys whose numbers are integers
  in the safe range, as \<open>Date.now()\<close> gives them.
\<close>

theorem word_list_round_trip:
  "\<forall>w\<in>set (update savedWords). wf_value (JObj w) \<Longrightarrow>
     fst (setSavedWords update (savedWords, localStorage)) = update savedWords \<and>
     snd (setSavedWords update (savedWords, localStorage)) STORAGE_KEY
       = Some (JSON_stringify (JArr (map JObj (update savedWords)))) \<and>
     (\<forall>k. k \<noteq> STORAGE_KEY \<longrightarrow>
        snd (setSavedWords update (savedWords, localStorage)) k = localStorage k) \<and>
     load_effect (snd (setSavedWords update (savedWords, localStorage))) initial
       = Returns (JArr (map JObj (update savedWords)))"
proof -
  assume "\<forall>w\<in>set (update savedWords). wf_value (JObj w)"
  then have "wf_value (JArr (map JObj (update savedWords)))"
    by (simp add: wf_elements_iff)
  then show ?thesis
    by (simp add: setSavedWords_def load_save) (simp add: save_effect_def)
qed

theorem word_list_round_trip_witness:
  "list_all (\<lambda>w. wf_value (JObj w)) (handleSaveWord (js ''u-1'') 1700000000000 cat_definition []) \<and>
   load_effect
     (snd (setSavedWords (handleSaveWord (js ''u-1'') 1700000000000 cat_definition) ([], Map.empty)))
     (JArr [])
   = Returns (JArr [JObj (cat_definition @
       [(js ''id'', JStr (js ''u-1'')), (js ''addedAt'', JNum 1700000000000)])])"
proof -
  have nw: "handleSaveWord (js ''u-1'') 1700000000000 cat_definition [] =
      [cat_definition @ [(js ''id'', JStr (js ''u-1'')), (js ''addedAt'', JNum 1700000000000)]]"
    by (simp add: handleSaveWord_def newWord_def spread_def cat_definition_def js_def)
  have wf: "wf_value (JObj (cat_definition @
      [(js ''id'', JStr (js ''u-1'')), (js ''addedAt'', JNum 1700000000000)]))"
    by (simp add: cat_definition_def wf_object_def MAX_SAFE_INTEGER_def js_def)
  have all: "\<forall>w\<in>set (handleSaveWord (js ''u-1'') 1700000000000 cat_definition []).
      wf_value (JObj w)"
    unfolding nw using wf by simp
  from word_list_round_trip [of "handleSaveWord (js ''u-1'') 1700000000000 cat_definition" "[]"
      Map.empty "JArr []"] all
  have "load_effect
     (snd (setSavedWords (handleSaveWord (js ''u-1'') 1700000000000 cat_definition) ([], Map.empty)))
     (JArr [])
   = Returns (JArr (map JObj (handleSaveWord (js ''u-1'') 1700000000000 cat_definition [])))"
    by blast
  then show ?thesis using wf by (simp add: nw)
qed

section \<open>Remote AI client\<close>

subsection \<open>The logging service\<close>

lemma getAI_logged:
  "getAI (logged_platform p) = (case getAI p of Inl e \<Rightarrow> Inl e | Inr ai \<Rightarrow> Inr (logged ai))"
  by (simp add: getAI_def logged_platform_def)

lemma logged_simps:
  "generateContent (logged ai) req (l, w) =
     (fst (generateContent ai req w), (l @ [GenerateContent req], snd (generateContent ai req w)))"
  "generateVideos (logged ai) req (l, w) =
     (fst (generateVideos ai req w), (l @ [GenerateVideos req], snd (generateVideos ai req w)))"
  "getVideosOperation (logged ai) operation (l, w) =
     (fst (getVideosOperation ai operation w),
      (l @ [GetVideosOperation], snd (getVideosOperation ai operation w)))"
  "fetch (logged ai) url (l, w) =
     (fst (fetch ai url w), (l @ [Fetch url], snd (fetch ai url w)))"
  by (simp_all add: logged_def)

lemma logged_platform_fields:
  "API_KEY (logged_platform p) = API_KEY p"
  "createObjectURL (logged_platform p) = createObjectURL p"
  by (simp_all add: logged_platform_def)

subsection \<open>Operations with one request\<close>

lemma one_call_failed_client:
  assumes "getAI p = Inl e"
  shows "lookupWordInGemini (logged_platform p) word ([], w) = (Throws e, ([], w))"
    and "generateTTS (logged_platform p) word ([], w) = (Throws e, ([], w))"
    and "analyzeImageForVocabulary (logged_platform p) word ([], w) = (Throws e, ([], w))"
    and "generateWordImage (logged_platform p) word meaning ([], w) = (Throws e, ([], w))"
    and "generateWordVideo (logged_platform p) word context ([], w) = Some (Throws e, ([], w))"
  using assms
  by (simp_all add: lookupWordInGemini_def generateTTS_def analyzeImageForVocabulary_def
      generateWordImage_def generateWordVideo_def getAI_logged)

lemma one_call:
  assumes "getAI p = Inr ai"
  shows "calls (lookupWordInGemini (logged_platform p) word) w
           = [GenerateContent (LookupRequest word)]"
    and "calls (generateTTS (logged_platform p) word) w = [GenerateContent (TTSRequest word)]"
    and "calls (analyzeImageForVocabulary (logged_platform p) word) w
           = [GenerateContent (AnalyzeImageRequest word)]"
    and "calls (generateWordImage (logged_platform p) word meaning) w
           = [GenerateContent (WordImageRequest word meaning)]"
  using assms
  by (simp_all add: calls_def lookupWordInGemini_def generateTTS_def analyzeImageForVocabulary_def
      generateWordImage_def getAI_logged logged_simps split: sum.splits option.splits)

lemma one_call_world:
  assumes "getAI p = Inr ai"
  shows "snd (lookupWordInGemini p word w) = snd (generateContent ai (LookupRequest word) w)"
    and "snd (generateTTS p word w) = snd (generateContent ai (TTSRequest word) w)"
    and "snd (analyzeImageForVocabulary p word w)
           = snd (generateContent ai (AnalyzeImageRequest word) w)"
    and "snd (generateWordImage p word meaning w)
           = snd (generateContent ai (WordImageRequest word meaning) w)"
  using assms
  by (simp_all add: lookupWordInGemini_def generateTTS_def analyzeImageForVocabulary_def
      generateWordImage_def split: prod.splits sum.splits option.splits)

lemma one_call_answer:
  assumes "getAI p = Inr ai" "getAI p' = Inr ai'"
  shows "fst (generateContent ai' (LookupRequest word) w') = fst (generateContent ai (LookupRequest word) w)
           \<Longrightarrow> fst (lookupWordInGemini p' word w') = fst (lookupWordInGemini p word w)"
    and "fst (generateContent ai' (TTSRequest word) w') = fst (generateContent ai (TTSRequest word) w)
           \<Longrightarrow> fst (generateTTS p' word w') = fst (generateTTS p word w)"
    and "fst (generateContent ai' (AnalyzeImageRequest word) w')
             = fst (generateContent ai (AnalyzeImageRequest word) w)
           \<Longrightarrow> fst (analyzeImageForVocabulary p' word w') = fst (analyzeImageForVocabulary p word w)"
    and "fst (generateContent ai' (WordImageRequest word meaning) w')
             = fst (generateContent ai (WordImageRequest word meaning) w)
           \<Longrightarrow> fst (generateWordImage p' word meaning w') = fst (generateWordImage p word meaning w)"
  using assms
  by (auto simp: lookupWordInGemini_def generateTTS_def analyzeImageForVocabulary_def
      generateWordImage_def split: prod.splits sum.splits option.splits)

subsection \<open>The polling loop\<close>

lemma poll_done:
  "operation_done operation = Some True \<Longrightarrow> poll ai operation w = Some (Inr operation, w)"
  by (simp add: poll.simps)

lemma poll_pending:
  "operation_done operation \<noteq> Some True
     \<Longrightarrow> getVideosOperation ai operation w = (Inr operation', w')
     \<Longrightarrow> poll ai operation w = poll ai operation' w'"
  by (subst poll.simps) simp

lemma poll_rejected:
  "operation_done operation \<noteq> Some True
     \<Longrightarrow> getVideosOperation ai operation w = (Inl e, w')
     \<Longrightarrow> poll ai operation w = Some (Inl e, w')"
  by (subst poll.simps) simp

lemma poll_logged_chain:
  assumes "\<forall>i<k. operation_done (ops i) \<noteq> Some True
             \<and> getVideosOperation ai (ops i) (ws i) = (Inr (ops (Suc i)), ws (Suc i))"
  shows "poll (logged ai) (ops 0) (l, ws 0)
           = poll (logged ai) (ops k) (l @ replicate k GetVideosOperation, ws k)"
  using assms
proof (induction k)
  case 0
  show ?case by simp
next
  case (Suc k)
  have step: "operation_done (ops k) \<noteq> Some True"
    "getVideosOperation ai (ops k) (ws k) = (Inr (ops (Suc k)), ws (Suc k))"
    using Suc.prems by simp_all
  have "poll (logged ai) (ops 0) (l, ws 0)
          = poll (logged ai) (ops k) (l @ replicate k GetVideosOperation, ws k)"
    using Suc.IH Suc.prems by simp
  also have "\<dots> = poll (logged ai) (ops (Suc k))
                     ((l @ replicate k GetVideosOperation) @ [GetVideosOperation], ws (Suc k))"
    by (rule poll_pending [OF step(1)]) (simp add: logged_simps step(2))
  also have "(l @ replicate k GetVideosOperation) @ [GetVideosOperation]
               = l @ replicate (Suc k) GetVideosOperation"
    by (simp add: replicate_append_same)
  finally show ?case .
qed

text \<open>The result of the steps after the loop, and the calls they make.\<close>

lemma video_request_rejected:
  assumes "getAI p = Inr ai"
    and "generateVideos ai (WordVideoRequest word context) w = (Inl e, w1)"
  shows "generateWordVideo (logged_platform p) word context ([], w)
           = Some (Throws e, ([GenerateVideos (WordVideoRequest word context)], w1))"
  using assms by (simp add: generateWordVideo_def getAI_logged logged_simps)

lemma video_status_rejected:
  assumes ai: "getAI p = Inr ai"
    and started: "generateVideos ai (WordVideoRequest word context) w = (Inr (ops 0), ws 0)"
    and chain: "\<forall>i<k. operation_done (ops i) \<noteq> Some True
             \<and> getVideosOperation ai (ops i) (ws i) = (Inr (ops (Suc i)), ws (Suc i))"
    and last: "operation_done (ops k) \<noteq> Some True"
      "getVideosOperation ai (ops k) (ws k) = (Inl e, w2)"
  shows "generateWordVideo (logged_platform p) word context ([], w)
           = Some (Throws e, (GenerateVideos (WordVideoRequest word context)
                                # replicate (Suc k) GetVideosOperation, w2))"
proof -
  let ?l = "[GenerateVideos (WordVideoRequest word context)]"
  have "poll (logged ai) (ops 0) (?l, ws 0)
          = poll (logged ai) (ops k) (?l @ replicate k GetVideosOperation, ws k)"
    by (rule poll_logged_chain [OF chain])
  also have "\<dots> = Some (Inl e, ((?l @ replicate k GetVideosOperation) @ [GetVideosOperation], w2))"
    by (rule poll_rejected [OF last(1)]) (simp add: logged_simps last(2))
  finally have "poll (logged ai) (ops 0) (?l, ws 0)
      = Some (Inl e, (GenerateVideos (WordVideoRequest word context)
                        # replicate (Suc k) GetVideosOperation, w2))"
    by (simp add: replicate_append_same)
  then show ?thesis
    using ai started by (simp add: generateWordVideo_def getAI_logged logged_simps)
qed

lemma video_finished:
  assumes ai: "getAI p = Inr ai"
    and started: "generateVideos ai (WordVideoRequest word context) w = (Inr (ops 0), ws 0)"
    and chain: "\<forall>i<k. operation_done (ops i) \<noteq> Some True
             \<and> getVideosOperation ai (ops i) (ws i) = (Inr (ops (Suc i)), ws (Suc i))"
    and last: "operation_done (ops k) = Some True"
  shows "generateWordVideo (logged_platform p) word context ([], w)
           = Some (if truthy (downloadLink (ops k))
                   then ((case fst (fetch ai (download_url (API_KEY p) (the (downloadLink (ops k)))) (ws k)) of
                            Inl e \<Rightarrow> Throws e
                          | Inr blob \<Rightarrow> Returns (Some (createObjectURL p blob))),
                         (GenerateVideos (WordVideoRequest word context)
                            # replicate k GetVideosOperation
                            @ [Fetch (download_url (API_KEY p) (the (downloadLink (ops k))))],
                          snd (fetch ai (download_url (API_KEY p) (the (downloadLink (ops k)))) (ws k))))
                   else (Returns None,
                         (GenerateVideos (WordVideoRequest word context)
                            # replicate k GetVideosOperation, ws k)))"
proof -
  let ?l = "[GenerateVideos (WordVideoRequest word context)]"
  have "poll (logged ai) (ops 0) (?l, ws 0)
          = poll (logged ai) (ops k) (?l @ replicate k GetVideosOperation, ws k)"
    by (rule poll_logged_chain [OF chain])
  also have "\<dots> = Some (Inr (ops k), (?l @ replicate k GetVideosOperation, ws k))"
    by (rule poll_done [OF last])
  finally have "poll (logged ai) (ops 0) (?l, ws 0)
      = Some (Inr (ops k), (GenerateVideos (WordVideoRequest word context)
                              # replicate k GetVideosOperation, ws k))"
    by simp
  then show ?thesis
    using ai started
    by (simp add: generateWordVideo_def getAI_logged logged_simps logged_platform_fields truthy_def
        split: option.splits sum.splits)
qed

subsection \<open>Logging changes no result\<close>

lemma unlogged_simp [simp]: "unlogged (r, l, w) = (r, w)"
  by (simp add: unlogged_def)

lemma poll_unlogged_Some:
  assumes "poll ai' operation lw = Some y"
  shows "\<forall>ai. ai' = logged ai \<longrightarrow> poll ai operation (snd lw) = Some (unlogged y)"
proof (rule poll.raw_induct
    [where P = "\<lambda>ai' operation lw y.
       \<forall>ai. ai' = logged ai \<longrightarrow> poll ai operation (snd lw) = Some (unlogged y)",
     OF _ assms], goal_cases)
  case (1 poll' ai' operation lw y)
  show ?case
  proof (intro allI impI)
    fix ai
    assume ai': "ai' = logged ai"
    obtain l w where lw: "lw = (l, w)" by (cases lw)
    show "poll ai operation (snd lw) = Some (unlogged y)"
    proof (cases "operation_done operation = Some True")
      case True
      then show ?thesis using 1(2) by (auto simp: poll_done unlogged_def)
    next
      case False
      obtain r w' where answer: "getVideosOperation ai operation w = (r, w')"
        by (cases "getVideosOperation ai operation w")
      show ?thesis
      proof (cases r)
        case (Inl e)
        then have "y = (Inl e, (l @ [GetVideosOperation], w'))"
          using 1(2) False lw ai' answer by (simp add: logged_simps)
        then show ?thesis
          using False lw answer Inl by (subst poll.simps) simp
      next
        case (Inr operation')
        then have "poll' ai' operation' (l @ [GetVideosOperation], w') = Some y"
          using 1(2) False lw ai' answer by (simp add: logged_simps)
        from 1(1) [OF this] ai' Inr False lw answer show ?thesis
          by (subst poll.simps) simp
      qed
    qed
  qed
qed

lemma poll_logged_Some:
  assumes "poll ai operation w = Some y"
  shows "\<forall>l. \<exists>l'. poll (logged ai) operation (l, w) = Some (fst y, (l', snd y))"
proof (rule poll.raw_induct
    [where P = "\<lambda>ai operation w y.
       \<forall>l. \<exists>l'. poll (logged ai) operation (l, w) = Some (fst y, (l', snd y))",
     OF _ assms], goal_cases)
  case (1 poll' ai operation w y)
  show ?case
  proof
    fix l
    show "\<exists>l'. poll (logged ai) operation (l, w) = Some (fst y, (l', snd y))"
    proof (cases "operation_done operation = Some True")
      case True
      then show ?thesis using 1(2) by (auto simp: poll_done)
    next
      case False
      obtain r w' where answer: "getVideosOperation ai operation w = (r, w')"
        by (cases "getVideosOperation ai operation w")
      show ?thesis
      proof (cases r)
        case (Inl e)
        then have "y = (Inl e, w')"
          using 1(2) False answer by simp
        then show ?thesis
          using False answer Inl by (subst poll.simps) (simp add: logged_simps)
      next
        case (Inr operation')
        then have "poll' ai operation' w' = Some y"
          using 1(2) False answer by simp
        from 1(1) [OF this] Inr False answer show ?thesis
          by (subst poll.simps) (simp add: logged_simps)
      qed
    qed
  qed
qed

lemma poll_unlogged:
  "map_option unlogged (poll (logged ai) operation (l, w)) = poll ai operation w"
proof (cases "poll ai operation w")
  case None
  show ?thesis
  proof (cases "poll (logged ai) operation (l, w)")
    case inner: None
    then show ?thesis using None by simp
  next
    case (Some y)
    from poll_unlogged_Some [OF this] None show ?thesis by simp
  qed
next
  case (Some y)
  from poll_logged_Some [OF this] obtain l'
    where "poll (logged ai) operation (l, w) = Some (fst y, (l', snd y))" by blast
  then show ?thesis using Some by simp
qed

lemma logging_transparent:
  "unlogged (lookupWordInGemini (logged_platform p) word (l, w)) = lookupWordInGemini p word w"
  "unlogged (generateTTS (logged_platform p) word (l, w)) = generateTTS p word w"
  "unlogged (analyzeImageForVocabulary (logged_platform p) word (l, w))
     = analyzeImageForVocabulary p word w"
  "unlogged (generateWordImage (logged_platform p) word meaning (l, w))
     = generateWordImage p word meaning w"
  by (simp_all add: lookupWordInGemini_def generateTTS_def analyzeImageForVocabulary_def
      generateWordImage_def getAI_logged logged_simps split: prod.splits sum.splits option.splits)

lemma video_logging_transparent:
  "map_option unlogged (generateWordVideo (logged_platform p) word context (l, w))
     = generateWordVideo p word context w"
proof (cases "getAI p")
  case (Inl e)
  then show ?thesis by (simp add: generateWordVideo_def getAI_logged)
next
  case (Inr ai)
  show ?thesis
  proof (cases "generateVideos ai (WordVideoRequest word context) w")
    case (Pair r w1)
    show ?thesis
    proof (cases r)
      case (Inl e)
      then show ?thesis using Inr Pair
        by (simp add: generateWordVideo_def getAI_logged logged_simps)
    next
      case started: (Inr started)
      let ?l = "l @ [GenerateVideos (WordVideoRequest word context)]"
      have polled: "map_option unlogged (poll (logged ai) started (?l, w1)) = poll ai started w1"
        by (rule poll_unlogged)
      show ?thesis
      proof (cases "poll (logged ai) started (?l, w1)")
        case None
        then show ?thesis using polled Inr Pair started
          by (simp add: generateWordVideo_def getAI_logged logged_simps)
      next
        case (Some y)
        obtain r2 l2 w2 where y: "y = (r2, l2, w2)" by (cases y)
        have "poll ai started w1 = Some (r2, w2)" using polled Some y by simp
        then show ?thesis using Some y Inr Pair started
          by (simp add: generateWordVideo_def getAI_logged logged_simps logged_platform_fields
              split: prod.splits sum.splits option.splits)
      qed
    qed
  qed
qed

subsection \<open>Calls per use\<close>

lemma getAI_browser:
  "getAI (browser (Some key) service) = Inr service"
  "getAI (browser None service) = Inl (Error ''An API Key must be set when running in a browser'')"
  by (simp_all add: getAI_def browser_def browser_sdk_def)

text \<open>
  As stated, with exactly one call per use for all five operations, the claim fails
  twice. Video generation makes four calls when the first status request still finds the
  operation pending; and with no API key in the build the browser SDK refuses to build
  the client, so that an operation makes no call at all.
\<close>

theorem video_calls_counterexample:
  "map_option (fst \<circ> snd)
     (generateWordVideo (logged_platform (browser (Some (js ''K'')) video_service))
        (js ''cat'') (js ''The cat sat.'') ([], 0))
   = Some [GenerateVideos (WordVideoRequest (js ''cat'') (js ''The cat sat.'')),
           GetVideosOperation, GetVideosOperation,
           Fetch (js ''https://v/1?alt=media&key=K'')] \<and>
   calls (lookupWordInGemini (logged_platform (browser None video_service)) (js ''cat'')) 0 = []"
proof -
  let ?ai = "logged video_service"
  let ?l = "[GenerateVideos (WordVideoRequest (js ''cat'') (js ''The cat sat.''))]"
  have a: "operation_done pending \<noteq> Some True" by (simp add: pending_def)
  have b: "operation_done finished = Some True" by (simp add: finished_def)
  have "poll ?ai pending (?l, 0) = poll ?ai pending (?l @ [GetVideosOperation], Suc 0)"
    by (rule poll_pending [OF a]) (simp add: logged_simps video_service_def)
  also have "\<dots> = poll ?ai finished
      ((?l @ [GetVideosOperation]) @ [GetVideosOperation], Suc (Suc 0))"
    by (rule poll_pending [OF a]) (simp add: logged_simps video_service_def)
  also have "\<dots> = Some (Inr finished,
      ((?l @ [GetVideosOperation]) @ [GetVideosOperation], Suc (Suc 0)))"
    by (rule poll_done [OF b])
  finally have p: "poll ?ai pending (?l, 0) = Some (Inr finished,
      ((?l @ [GetVideosOperation]) @ [GetVideosOperation], Suc (Suc 0)))" .
  have ai: "getAI (logged_platform (browser (Some (js ''K'')) video_service)) = Inr ?ai"
    by (simp add: getAI_logged getAI_browser)
  have gv: "generateVideos ?ai (WordVideoRequest (js ''cat'') (js ''The cat sat.'')) ([], 0)
      = (Inr pending, (?l, 0))"
    by (simp add: logged_simps video_service_def)
  have dl: "downloadLink finished = Some (js ''https://v/1?alt=media'')"
    by (simp add: downloadLink_def finished_def first_def)
  have key: "API_KEY (logged_platform (browser (Some (js ''K'')) video_service)) = Some (js ''K'')"
    by (simp add: logged_platform_fields browser_def)
  have n: "js ''https://v/1?alt=media'' \<noteq> []" by (simp add: js_def)
  have f: "fetch ?ai u (l, w) = (Inr 7, (l @ [Fetch u], w))" for u l w
    by (simp add: logged_simps video_service_def)
  have url: "download_url (Some (js ''K'')) (js ''https://v/1?alt=media'')
      = js ''https://v/1?alt=media&key=K''"
    by (simp add: download_url_def js_def)
  have video: "map_option (fst \<circ> snd)
     (generateWordVideo (logged_platform (browser (Some (js ''K'')) video_service))
        (js ''cat'') (js ''The cat sat.'') ([], 0))
   = Some [GenerateVideos (WordVideoRequest (js ''cat'') (js ''The cat sat.'')),
           GetVideosOperation, GetVideosOperation,
           Fetch (js ''https://v/1?alt=media&key=K'')]"
    by (simp add: generateWordVideo_def ai gv p dl key n f url)
  have "getAI (logged_platform (browser None video_service))
      = Inl (Error ''An API Key must be set when running in a browser'')"
    by (simp add: getAI_logged getAI_browser)
  then have "calls (lookupWordInGemini (logged_platform (browser None video_service)) (js ''cat'')) 0
      = []"
    by (simp add: calls_def lookupWordInGemini_def)
  with video show ?thesis by simp
qed

text \<open>
  Claim C3, amended. Each operation is stateless request/response: every use builds its
  own client and keeps nothing, so that its outcome is determined by the answers of the
  service to its own calls. When building the client throws, as the browser SDK does with
  no API key, the operation makes no call and the error propagates. Otherwise lookup,
  speech synthesis, image analysis and image generation each make exactly one
  \<open>generateContent\<close> call per use, leave the service as that call left it, and two uses
  that get the same answer have the same outcome, whatever happened before. Video
  generation makes one \<open>generateVideos\<close> call; if that is rejected it stops; otherwise it
  makes one status request for every answer that is not yet done, stops when a status
  request is rejected, and when the operation reports done after \<open>k\<close> of them it returns,
  after one more call to download the video when there is a link. The calls are those
  that the logging service has recorded at the end of the run.
\<close>

theorem remote_calls_per_use:
  "(\<forall>e. getAI p = Inl e \<longrightarrow>
      lookupWordInGemini (logged_platform p) word ([], w) = (Throws e, ([], w)) \<and>
      generateTTS (logged_platform p) word ([], w) = (Throws e, ([], w)) \<and>
      analyzeImageForVocabulary (logged_platform p) base64Image ([], w) = (Throws e, ([], w)) \<and>
      generateWordImage (logged_platform p) word meaning ([], w) = (Throws e, ([], w)) \<and>
      generateWordVideo (logged_platform p) word context ([], w) = Some (Throws e, ([], w))) \<and>
   (\<forall>ai. getAI p = Inr ai \<longrightarrow>
      calls (lookupWordInGemini (logged_platform p) word) w
        = [GenerateContent (LookupRequest word)] \<and>
      calls (generateTTS (logged_platform p) word) w = [GenerateContent (TTSRequest word)] \<and>
      calls (analyzeImageForVocabulary (logged_platform p) base64Image) w
        = [GenerateContent (AnalyzeImageRequest base64Image)] \<and>
      calls (generateWordImage (logged_platform p) word meaning) w
        = [GenerateContent (WordImageRequest word meaning)] \<and>
      snd (lookupWordInGemini p word w) = snd (generateContent ai (LookupRequest word) w) \<and>
      snd (generateTTS p word w) = snd (generateContent ai (TTSRequest word) w) \<and>
      snd (analyzeImageForVocabulary p base64Image w)
        = snd (generateContent ai (AnalyzeImageRequest base64Image) w) \<and>
      snd (generateWordImage p word meaning w)
        = snd (generateContent ai (WordImageRequest word meaning) w) \<and>
      (\<forall>p' ai' w'. getAI p' = Inr ai' \<longrightarrow>
         (fst (generateContent ai' (LookupRequest word) w')
            = fst (generateContent ai (LookupRequest word) w) \<longrightarrow>
          fst (lookupWordInGemini p' word w') = fst (lookupWordInGemini p word w)) \<and>
         (fst (generateContent ai' (TTSRequest word) w')
            = fst (generateContent ai (TTSRequest word) w) \<longrightarrow>
          fst (generateTTS p' word w') = fst (generateTTS p word w)) \<and>
         (fst (generateContent ai' (AnalyzeImageRequest base64Image) w')
            = fst (generateContent ai (AnalyzeImageRequest base64Image) w) \<longrightarrow>
          fst (analyzeImageForVocabulary p' base64Image w')
            = fst (analyzeImageForVocabulary p base64Image w)) \<and>
         (fst (generateContent ai' (WordImageRequest word meaning) w')
            = fst (generateContent ai (WordImageRequest word meaning) w) \<longrightarrow>
          fst (generateWordImage p' word meaning w') = fst (generateWordImage p word meaning w))) \<and>
      (\<forall>e w1. generateVideos ai (WordVideoRequest word context) w = (Inl e, w1) \<longrightarrow>
         generateWordVideo (logged_platform p) word context ([], w)
           = Some (Throws e, ([GenerateVideos (WordVideoRequest word context)], w1))) \<and>
      (\<forall>ops ws k.
         generateVideos ai (WordVideoRequest word context) w = (Inr (ops 0), ws 0) \<and>
         (\<forall>i<k. operation_done (ops i) \<noteq> Some True \<and>
            getVideosOperation ai (ops i) (ws i) = (Inr (ops (Suc i)), ws (Suc i))) \<longrightarrow>
         (\<forall>e w2. operation_done (ops k) \<noteq> Some True \<and>
              getVideosOperation ai (ops k) (ws k) = (Inl e, w2) \<longrightarrow>
            generateWordVideo (logged_platform p) word context ([], w)
              = Some (Throws e, (GenerateVideos (WordVideoRequest word context)
                                   # replicate (Suc k) GetVideosOperation, w2))) \<and>
         (operation_done (ops k) = Some True \<longrightarrow>
            generateWordVideo (logged_platform p) word context ([], w)
              = Some (if truthy (downloadLink (ops k))
                      then ((case fst (fetch ai (download_url (API_KEY p) (the (downloadLink (ops k))))
                                         (ws k)) of
                               Inl e \<Rightarrow> Throws e
                             | Inr blob \<Rightarrow> Returns (Some (createObjectURL p blob))),
                            (GenerateVideos (WordVideoRequest word context)
                               # replicate k GetVideosOperation
                               @ [Fetch (download_url (API_KEY p) (the (downloadLink (ops k))))],
                             snd (fetch ai (download_url (API_KEY p) (the (downloadLink (ops k))))
                                    (ws k))))
                      else (Returns None,
                            (GenerateVideos (WordVideoRequest word context)
                               # replicate k GetVideosOperation, ws k))))))"
proof (intro conjI allI impI; (elim conjE)?)
  fix e
  assume "getAI p = Inl e"
  note failed = one_call_failed_client [OF this]
  show "lookupWordInGemini (logged_platform p) word ([], w) = (Throws e, ([], w))"
    by (rule failed)
  show "generateTTS (logged_platform p) word ([], w) = (Throws e, ([], w))"
    by (rule failed)
  show "analyzeImageForVocabulary (logged_platform p) base64Image ([], w) = (Throws e, ([], w))"
    by (rule failed)
  show "generateWordImage (logged_platform p) word meaning ([], w) = (Throws e, ([], w))"
    by (rule failed)
  show "generateWordVideo (logged_platform p) word context ([], w) = Some (Throws e, ([], w))"
    by (rule failed)
next
  fix ai
  assume ai: "getAI p = Inr ai"
  show "calls (lookupWordInGemini (logged_platform p) word) w
        = [GenerateContent (LookupRequest word)]"
    by (rule one_call [OF ai])
  show "calls (generateTTS (logged_platform p) word) w = [GenerateContent (TTSRequest word)]"
    by (rule one_call [OF ai])
  show "calls (analyzeImageForVocabulary (logged_platform p) base64Image) w
        = [GenerateContent (AnalyzeImageRequest base64Image)]"
    by (rule one_call [OF ai])
  show "calls (generateWordImage (logged_platform p) word meaning) w
        = [GenerateContent (WordImageRequest word meaning)]"
    by (rule one_call [OF ai])
  show "snd (lookupWordInGemini p word w) = snd (generateContent ai (LookupRequest word) w)"
    by (rule one_call_world [OF ai])
  show "snd (generateTTS p word w) = snd (generateContent ai (TTSRequest word) w)"
    by (rule one_call_world [OF ai])
  show "snd (analyzeImageForVocabulary p base64Image w)
        = snd (generateContent ai (AnalyzeImageRequest base64Image) w)"
    by (rule one_call_world [OF ai])
  show "snd (generateWordImage p word meaning w)
        = snd (generateContent ai (WordImageRequest word meaning) w)"
    by (rule one_call_world [OF ai])
next
  fix ai p' ai' w'
  assume ai: "getAI p = Inr ai" and ai': "getAI p' = Inr ai'"
  show "fst (lookupWordInGemini p' word w') = fst (lookupWordInGemini p word w)"
    if "fst (generateContent ai' (LookupRequest word) w')
            = fst (generateContent ai (LookupRequest word) w)"
    using that by (rule one_call_answer [OF ai ai'])
  show "fst (generateTTS p' word w') = fst (generateTTS p word w)"
    if "fst (generateContent ai' (TTSRequest word) w')
            = fst (generateContent ai (TTSRequest word) w)"
    using that by (rule one_call_answer [OF ai ai'])
  show "fst (analyzeImageForVocabulary p' base64Image w')
            = fst (analyzeImageForVocabulary p base64Image w)"
    if "fst (generateContent ai' (AnalyzeImageRequest base64Image) w')
            = fst (generateContent ai (AnalyzeImageRequest base64Image) w)"
    using that by (rule one_call_answer [OF ai ai'])
  show "fst (generateWordImage p' word meaning w') = fst (generateWordImage p word meaning w)"
    if "fst (generateContent ai' (WordImageRequest word meaning) w')
            = fst (generateContent ai (WordImageRequest word meaning) w)"
    using that by (rule one_call_answer [OF ai ai'])
next
  fix ai e w1
  assume "getAI p = Inr ai" "generateVideos ai (WordVideoRequest word context) w = (Inl e, w1)"
  then show "generateWordVideo (logged_platform p) word context ([], w)
           = Some (Throws e, ([GenerateVideos (WordVideoRequest word context)], w1))"
    by (rule video_request_rejected)
next
  fix ai ops ws k e w2
  assume "getAI p = Inr ai"
    "generateVideos ai (WordVideoRequest word context) w = (Inr (ops 0), ws 0)"
    "\<forall>i<k. operation_done (ops i) \<noteq> Some True \<and>
            getVideosOperation ai (ops i) (ws i) = (Inr (ops (Suc i)), ws (Suc i))"
    "operation_done (ops k) \<noteq> Some True"
    "getVideosOperation ai (ops k) (ws k) = (Inl e, w2)"
  then show "generateWordVideo (logged_platform p) word context ([], w)
              = Some (Throws e, (GenerateVideos (WordVideoRequest word context)
                                   # replicate (Suc k) GetVideosOperation, w2))"
    by (rule video_status_rejected)
next
  fix ai ops ws k
  assume "getAI p = Inr ai"
    "generateVideos ai (WordVideoRequest word context) w = (Inr (ops 0), ws 0)"
    "\<forall>i<k. operation_done (ops i) \<noteq> Some True \<and>
            getVideosOperation ai (ops i) (ws i) = (Inr (ops (Suc i)), ws (Suc i))"
    "operation_done (ops k) = Some True"
  then show "generateWordVideo (logged_platform p) word context ([], w)
              = Some (if truthy (downloadLink (ops k))
                      then ((case fst (fetch ai (download_url (API_KEY p) (the (downloadLink (ops k))))
                                         (ws k)) of
                               Inl e \<Rightarrow> Throws e
                             | Inr blob \<Rightarrow> Returns (Some (createObjectURL p blob))),
                            (GenerateVideos (WordVideoRequest word context)
                               # replicate k GetVideosOperation
                               @ [Fetch (download_url (API_KEY p) (the (downloadLink (ops k))))],
                             snd (fetch ai (download_url (API_KEY p) (the (downloadLink (ops k))))
                                    (ws k))))
                      else (Returns None,
                            (GenerateVideos (WordVideoRequest word context)
                               # replicate k GetVideosOperation, ws k)))"
    by (rule video_finished)
qed

theorem remote_calls_per_use_witness:
  "getAI (browser None video_service)
     = Inl (Error ''An API Key must be set when running in a browser'') \<and>
   generateTTS (logged_platform (browser None video_service)) (js ''cat'') ([], 0)
     = (Throws (Error ''An API Key must be set when running in a browser''), ([], 0)) \<and>
   getAI (browser (Some (js ''K'')) video_service) = Inr video_service \<and>
   calls (lookupWordInGemini (logged_platform (browser (Some (js ''K'')) video_service)) (js ''cat'')) 0
     = [GenerateContent (LookupRequest (js ''cat''))] \<and>
   fst (generateContent video_service (LookupRequest (js ''cat'')) 5)
     = fst (generateContent video_service (LookupRequest (js ''cat'')) 0) \<and>
   fst (lookupWordInGemini (browser (Some (js ''L'')) video_service) (js ''cat'') 5)
     = fst (lookupWordInGemini (browser (Some (js ''K'')) video_service) (js ''cat'') 0) \<and>
   generateVideos video_service (WordVideoRequest (js ''cat'') (js ''The cat sat.'')) 0
     = (Inr (slow_video 0), 0) \<and>
   operation_done (slow_video 0) = None \<and>
   getVideosOperation video_service (slow_video 0) 0 = (Inr (slow_video 1), 1) \<and>
   operation_done (slow_video 1) = None \<and>
   getVideosOperation video_service (slow_video 1) 1 = (Inr (slow_video 2), 2) \<and>
   operation_done (slow_video 2) = Some True \<and>
   truthy (downloadLink (slow_video 2)) \<and>
   generateWordVideo (logged_platform (browser (Some (js ''K'')) video_service))
       (js ''cat'') (js ''The cat sat.'') ([], 0)
     = Some (Returns (Some (js ''blob:1'')),
             (GenerateVideos (WordVideoRequest (js ''cat'') (js ''The cat sat.''))
                # replicate 2 GetVideosOperation
                @ [Fetch (download_url (Some (js ''K'')) (the (downloadLink (slow_video 2))))],
              2))"
proof -
  let ?none = "browser None video_service"
  let ?p = "browser (Some (js ''K'')) video_service"
  let ?q = "browser (Some (js ''L'')) video_service"
  have none: "getAI ?none = Inl (Error ''An API Key must be set when running in a browser'')"
    by (rule getAI_browser)
  have ai: "getAI ?p = Inr video_service" and ai': "getAI ?q = Inr video_service"
    by (rule getAI_browser)+
  have 1: "generateTTS (logged_platform ?none) (js ''cat'') ([], 0)
     = (Throws (Error ''An API Key must be set when running in a browser''), ([], 0))"
    by (rule remote_calls_per_use
        [of ?none "js ''cat''" 0 "js ''cat''" "js ''cat''" "js ''cat''",
         THEN conjunct1, rule_format, OF none, THEN conjunct2, THEN conjunct1])
  note use = remote_calls_per_use
    [of ?p "js ''cat''" 0 "js ''cat''" "js ''cat''" "js ''The cat sat.''",
     THEN conjunct2, rule_format, OF ai]
  have 2: "calls (lookupWordInGemini (logged_platform ?p) (js ''cat'')) 0
     = [GenerateContent (LookupRequest (js ''cat''))]"
    by (rule use [THEN conjunct1])
  have same: "fst (generateContent video_service (LookupRequest (js ''cat'')) 5)
     = fst (generateContent video_service (LookupRequest (js ''cat'')) 0)"
    by (simp add: video_service_def)
  have 3: "fst (lookupWordInGemini ?q (js ''cat'') 5) = fst (lookupWordInGemini ?p (js ''cat'') 0)"
    by (rule use [THEN conjunct2, THEN conjunct2, THEN conjunct2, THEN conjunct2,
        THEN conjunct2, THEN conjunct2, THEN conjunct2, THEN conjunct2, THEN conjunct1,
        THEN spec, THEN spec, THEN spec, THEN mp, OF ai', THEN conjunct1, THEN mp, OF same])
  have gv: "generateVideos video_service (WordVideoRequest (js ''cat'') (js ''The cat sat.'')) 0
      = (Inr (slow_video 0), 0)"
    by (simp add: video_service_def slow_video_def)
  have steps: "\<forall>i<2. operation_done (slow_video i) \<noteq> Some True \<and>
      getVideosOperation video_service (slow_video i) i = (Inr (slow_video (Suc i)), Suc i)"
  proof (intro allI impI)
    fix i :: nat
    assume "i < 2"
    then have "i = 0 \<or> i = 1" by arith
    then show "operation_done (slow_video i) \<noteq> Some True \<and>
      getVideosOperation video_service (slow_video i) i = (Inr (slow_video (Suc i)), Suc i)"
      by (auto simp: slow_video_def video_service_def pending_def)
  qed
  have fin: "operation_done (slow_video 2) = Some True"
    by (simp add: slow_video_def finished_def)
  have link: "truthy (downloadLink (slow_video 2))"
    by (simp add: slow_video_def finished_def downloadLink_def first_def truthy_def js_def)
  have key: "API_KEY ?p = Some (js ''K'')" and url: "createObjectURL ?p = (\<lambda>blob. js ''blob:1'')"
    by (simp_all add: browser_def)
  have f: "fetch video_service u n = (Inr 7, n)" for u n
    by (simp add: video_service_def)
  have "generateWordVideo (logged_platform ?p) (js ''cat'') (js ''The cat sat.'') ([], 0)
     = Some (if truthy (downloadLink (slow_video 2))
             then ((case fst (fetch video_service
                                (download_url (API_KEY ?p) (the (downloadLink (slow_video 2)))) 2) of
                      Inl e \<Rightarrow> Throws e
                    | Inr blob \<Rightarrow> Returns (Some (createObjectURL ?p blob))),
                   (GenerateVideos (WordVideoRequest (js ''cat'') (js ''The cat sat.''))
                      # replicate 2 GetVideosOperation
                      @ [Fetch (download_url (API_KEY ?p) (the (downloadLink (slow_video 2))))],
                    snd (fetch video_service
                           (download_url (API_KEY ?p) (the (downloadLink (slow_video 2)))) 2)))
             else (Returns None,
                   (GenerateVideos (WordVideoRequest (js ''cat'') (js ''The cat sat.''))
                      # replicate 2 GetVideosOperation, 2)))"
    by (rule use [THEN conjunct2, THEN conjunct2, THEN conjunct2, THEN conjunct2,
        THEN conjunct2, THEN conjunct2, THEN conjunct2, THEN conjunct2,
        THEN conjunct2, THEN conjunct2,
        THEN spec [of _ slow_video], THEN spec [of _ "\<lambda>i. i"], THEN spec [of _ 2],
        THEN mp, OF conjI [OF gv steps], THEN conjunct2, THEN mp, OF fin])
  then have 4: "generateWordVideo (logged_platform ?p) (js ''cat'') (js ''The cat sat.'') ([], 0)
     = Some (Returns (Some (js ''blob:1'')),
             (GenerateVideos (WordVideoRequest (js ''cat'') (js ''The cat sat.''))
                # replicate 2 GetVideosOperation
                @ [Fetch (download_url (Some (js ''K'')) (the (downloadLink (slow_video 2))))],
              2))"
    by (simp add: link key url f)
  have more: "operation_done (slow_video 0) = None" "operation_done (slow_video 1) = None"
    "getVideosOperation video_service (slow_video 0) 0 = (Inr (slow_video 1), 1)"
    "getVideosOperation video_service (slow_video 1) 1 = (Inr (slow_video 2), 2)"
    by (simp_all add: slow_video_def pending_def video_service_def)
  show ?thesis
    using none 1 ai 2 same 3 gv more fin link 4 by (intro conjI)
qed

subsection \<open>Speech synthesis\<close>

text \<open>
  As stated the claim fails: the client is built before the \<open>try\<close> block is entered, and
  with no API key in the build the browser SDK throws there, so that \<open>generateTTS\<close> raises.
\<close>

theorem generateTTS_counterexample:
  "getAI (browser None speech_service)
     = Inl (Error ''An API Key must be set when running in a browser'') \<and>
   fst (generateTTS (browser None speech_service) (js ''cat'') 0)
     = Throws (Error ''An API Key must be set when running in a browser'')"
  by (simp add: generateTTS_def getAI_browser)

text \<open>
  Claim C10, amended. \<open>generateTTS\<close> raises only when building the client throws, and
  then that error propagates and the service is not called. Once the client is built it
  never throws. When the remote call is rejected it returns \<open>null\<close>; it returns a string
  exactly when the call resolved and the first part of the first candidate of the
  response holds that string as non-empty inline data; and in every other case it
  returns \<open>null\<close>.
\<close>

theorem generateTTS_outcomes:
  "(\<forall>e. getAI p = Inl e \<longrightarrow> generateTTS p t w = (Throws e, w)) \<and>
   (\<forall>ai. getAI p = Inr ai \<longrightarrow>
      (\<forall>e. fst (generateTTS p t w) \<noteq> Throws e) \<and>
      fst (generateTTS p t w) \<noteq> OutsideModel \<and>
      (\<forall>e. fst (generateContent ai (TTSRequest t) w) = Inl e \<longrightarrow>
         fst (generateTTS p t w) = Returns None) \<and>
      (\<forall>d. fst (generateTTS p t w) = Returns (Some d) \<longleftrightarrow>
         d \<noteq> [] \<and>
         (\<exists>response. fst (generateContent ai (TTSRequest t) w) = Inr response \<and>
            first_inline_data (Option.bind (Option.bind (candidates response) first) content)
              = Some d)))"
  by (auto simp: generateTTS_def split: prod.splits sum.splits option.splits)

theorem generateTTS_outcomes_witness:
  "getAI (browser None speech_service)
     = Inl (Error ''An API Key must be set when running in a browser'') \<and>
   generateTTS (browser None speech_service) (js ''cat'') 0
     = (Throws (Error ''An API Key must be set when running in a browser''), 0) \<and>
   getAI (browser (Some (js ''K'')) video_service) = Inr video_service \<and>
   fst (generateContent video_service (TTSRequest (js ''cat'')) 0) = Inl (ApiError ''unavailable'') \<and>
   fst (generateTTS (browser (Some (js ''K'')) video_service) (js ''cat'') 0) = Returns None \<and>
   fst (generateTTS (browser (Some (js ''K'')) speech_service) (js ''cat'') 0)
     = Returns (Some (js ''UklGRg==''))"
proof -
  have none: "getAI (browser None speech_service)
     = Inl (Error ''An API Key must be set when running in a browser'')"
    by (rule getAI_browser)
  have ai: "getAI (browser (Some (js ''K'')) video_service) = Inr video_service"
    by (rule getAI_browser)
  have a: "fst (generateContent video_service (TTSRequest (js ''cat'')) 0)
      = Inl (ApiError ''unavailable'')"
    by (simp add: video_service_def)
  have 1: "generateTTS (browser None speech_service) (js ''cat'') 0
     = (Throws (Error ''An API Key must be set when running in a browser''), 0)"
    using generateTTS_outcomes [of "browser None speech_service" "js ''cat''" 0] none by blast
  have 2: "fst (generateTTS (browser (Some (js ''K'')) video_service) (js ''cat'') 0) = Returns None"
    using generateTTS_outcomes [of "browser (Some (js ''K'')) video_service" "js ''cat''" 0] ai a
    by blast
  have 3: "fst (generateTTS (browser (Some (js ''K'')) speech_service) (js ''cat'') 0)
     = Returns (Some (js ''UklGRg==''))"
    by (simp add: generateTTS_def getAI_browser speech_service_def first_inline_data_def
        first_def js_def)
  show ?thesis using none 1 ai a 2 3 by (intro conjI)
qed

subsection \<open>Word lookup\<close>

lemma lookup_answered:
  assumes "getAI p = Inr ai"
  shows "fst (lookupWordInGemini p word w)
    = (case fst (generateContent ai (LookupRequest word) w) of
         Inl e \<Rightarrow> Throws e
       | Inr response \<Rightarrow>
           (case response_text response of
              None \<Rightarrow> Throws (Error ''Failed to generate definition'')
            | Some t \<Rightarrow>
                if t \<noteq> [] then JSON_parse t
                else Throws (Error ''Failed to generate definition'')))"
  using assms
  by (simp add: lookupWordInGemini_def split: prod.splits sum.splits option.splits)

lemma JSON_parse_oops: "JSON_parse (js ''oops'') = Throws SyntaxError"
  by (simp add: JSON_parse_def js_def is_ws_def is_digit_def parse_numeral)

lemma JSON_parse_42: "JSON_parse (js ''42'') = Returns (JNum 42)"
  by (simp add: JSON_parse_def js_def is_ws_def is_digit_def parse_number_def
      number_continues_def digits_value_def MAX_SAFE_INTEGER_def parse_numeral)

text \<open>
  As stated the claim fails: a response whose text is not JSON makes the function throw
  a \<open>SyntaxError\<close> although the response has text, and a response whose text is JSON but
  not an object makes it return that value, which has none of the fields.
\<close>

theorem lookupWordInGemini_counterexample:
  "response_text \<lparr>response_text = Some (js ''oops''), candidates = None\<rparr> = Some (js ''oops'') \<and>
   fst (lookupWordInGemini (browser (Some (js ''K'')) (text_service (Some (js ''oops''))))
          (js ''cat'') 0) = Throws SyntaxError \<and>
   fst (lookupWordInGemini (browser (Some (js ''K'')) (text_service (Some (js ''42''))))
          (js ''cat'') 0) = Returns (JNum 42)"
proof -
  have n: "js ''oops'' \<noteq> []" "js ''42'' \<noteq> []" by (simp_all add: js_def)
  show ?thesis
    by (simp add: lookupWordInGemini_def getAI_browser text_service_def n
        JSON_parse_oops JSON_parse_42)
qed

text \<open>
  Claim C4, amended. When building the client throws, or the remote call is rejected,
  the error propagates. When the response has no text, or empty text, the function throws
  \<open>Error("Failed to generate definition")\<close>. When the text is not empty the outcome is
  that of \<open>JSON.parse\<close> on it, a \<open>SyntaxError\<close> included; and when the text is the JSON
  text of an object, such as a word record with its seven fields, the function returns
  that object.
\<close>

theorem lookupWordInGemini_outcomes:
  "(\<forall>e. getAI p = Inl e \<longrightarrow> fst (lookupWordInGemini p word w) = Throws e) \<and>
   (\<forall>ai. getAI p = Inr ai \<longrightarrow>
      (\<forall>e. fst (generateContent ai (LookupRequest word) w) = Inl e \<longrightarrow>
         fst (lookupWordInGemini p word w) = Throws e) \<and>
      (\<forall>response. fst (generateContent ai (LookupRequest word) w) = Inr response \<longrightarrow>
         (\<not> truthy (response_text response) \<longrightarrow>
            fst (lookupWordInGemini p word w) = Throws (Error ''Failed to generate definition'')) \<and>
         (\<forall>t. response_text response = Some t \<and> t \<noteq> [] \<longrightarrow>
            fst (lookupWordInGemini p word w) = JSON_parse t) \<and>
         (\<forall>wordDef. wf_value (JObj wordDef) \<and>
              response_text response = Some (JSON_stringify (JObj wordDef)) \<longrightarrow>
            fst (lookupWordInGemini p word w) = Returns (JObj wordDef))))"
proof (intro conjI allI impI)
  show "fst (lookupWordInGemini p word w) = Throws e" if "getAI p = Inl e" for e
    using that by (simp add: lookupWordInGemini_def)
  show "fst (lookupWordInGemini p word w) = Throws e"
    if "getAI p = Inr ai" "fst (generateContent ai (LookupRequest word) w) = Inl e" for ai e
    using lookup_answered [OF that(1)] that(2) by simp
  show "fst (lookupWordInGemini p word w) = Throws (Error ''Failed to generate definition'')"
    if "getAI p = Inr ai" "fst (generateContent ai (LookupRequest word) w) = Inr response"
      "\<not> truthy (response_text response)"
    for ai response
    using lookup_answered [OF that(1)] that(2,3) by (simp add: truthy_def split: option.splits)
  show "fst (lookupWordInGemini p word w) = JSON_parse t"
    if "getAI p = Inr ai" "fst (generateContent ai (LookupRequest word) w) = Inr response"
      "response_text response = Some t \<and> t \<noteq> []" for ai response t
    using lookup_answered [OF that(1)] that(2,3) by simp
  show "fst (lookupWordInGemini p word w) = Returns (JObj wordDef)"
    if "getAI p = Inr ai" "fst (generateContent ai (LookupRequest word) w) = Inr response"
      "wf_value (JObj wordDef) \<and> response_text response = Some (JSON_stringify (JObj wordDef))"
    for ai response wordDef
    using lookup_answered [OF that(1)] that(2,3) JSON_round_trip [of "JObj wordDef"]
    by (simp add: JSON_stringify_nonempty)
qed

theorem lookupWordInGemini_outcomes_witness:
  "is_WordDefinition cat_definition \<and> wf_value (JObj cat_definition) \<and>
   fst (lookupWordInGemini
          (browser (Some (js ''K'')) (text_service (Some (JSON_stringify (JObj cat_definition)))))
          (js ''cat'') 0)
     = Returns (JObj cat_definition) \<and>
   fst (lookupWordInGemini (browser (Some (js ''K'')) (text_service None)) (js ''cat'') 0)
     = Throws (Error ''Failed to generate definition'') \<and>
   fst (lookupWordInGemini (browser (Some (js ''K'')) video_service) (js ''cat'') 0)
     = Throws (ApiError ''unavailable'') \<and>
   fst (lookupWordInGemini (browser None video_service) (js ''cat'') 0)
     = Throws (Error ''An API Key must be set when running in a browser'')"
proof -
  have ty: "is_WordDefinition cat_definition"
    by (simp add: is_WordDefinition_def WordDefinition_fields_def cat_definition_def
        get_prop_def is_string_def js_def)
  have wf: "wf_value (JObj cat_definition)"
    by (simp add: cat_definition_def wf_object_def js_def)
  have a: "fst (generateContent (text_service t) (LookupRequest (js ''cat'')) 0)
      = Inr \<lparr>response_text = t, candidates = None\<rparr>" for t
    by (simp add: text_service_def)
  have b: "fst (generateContent video_service (LookupRequest (js ''cat'')) 0)
      = Inl (ApiError ''unavailable'')"
    by (simp add: video_service_def)
  have 1: "fst (lookupWordInGemini
          (browser (Some (js ''K'')) (text_service (Some (JSON_stringify (JObj cat_definition)))))
          (js ''cat'') 0) = Returns (JObj cat_definition)"
    using lookupWordInGemini_outcomes
      [of "browser (Some (js ''K'')) (text_service (Some (JSON_stringify (JObj cat_definition))))"
        "js ''cat''" 0] a wf getAI_browser(1)
    by simp
  have 2: "fst (lookupWordInGemini (browser (Some (js ''K'')) (text_service None)) (js ''cat'') 0)
     = Throws (Error ''Failed to generate definition'')"
    by (simp add: lookupWordInGemini_def getAI_browser text_service_def)
  have 3: "fst (lookupWordInGemini (browser (Some (js ''K'')) video_service) (js ''cat'') 0)
     = Throws (ApiError ''unavailable'')"
    by (simp add: lookupWordInGemini_def getAI_browser video_service_def)
  have 4: "fst (lookupWordInGemini (browser None video_service) (js ''cat'') 0)
     = Throws (Error ''An API Key must be set when running in a browser'')"
    by (simp add: lookupWordInGemini_def getAI_browser)
  show ?thesis using ty wf 1 2 3 4 by (intro conjI)
qed

section \<open>Playback scheduling and interruption\<close>


text \<open>
  Claim C1. Whenever a server message carries the interrupted signal, the handler leaves
  the set of tracked sources empty and the next-start-time cursor at 0, and it has called
  \<open>stop\<close> on every source that was tracked when the message arrived and on the source
  the same message may have scheduled.
\<close>

theorem interruption_clears_playback:
  "message_interrupted message \<Longrightarrow>
     sources (onmessage decodeAudio currentTime message st) = [] \<and>
     nextStartTime (onmessage decodeAudio currentTime message st) = 0 \<and>
     (\<forall>s\<in>set (sources st). node_id s \<in> set (stopped (onmessage decodeAudio currentTime message st))) \<and>
     (\<forall>c\<in>set (playback (onmessage decodeAudio currentTime message st)).
        c \<notin> set (playback st) \<longrightarrow> 
        node_id (node c) \<in> set (stopped (onmessage decodeAudio currentTime message st)))"
  by (auto simp: onmessage_def interrupt_def play_chunk_def Let_def split: option.splits)













lemma run_Cons: "run decodeAudio (e # evs) st = run decodeAudio evs (handle decodeAudio e st)"
  by (simp add: run_def)

lemma run_Nil: "run decodeAudio [] st = st"
  by (simp add: run_def)

lemma onmessage_audio_message:
  "b \<noteq> [] \<Longrightarrow> outputAudioContext st \<Longrightarrow> outputNode st \<Longrightarrow>
   onmessage decodeAudio t (audio_message b) st = play_chunk decodeAudio t b st"
  by (simp add: onmessage_def audio_message_def message_audio_def message_interrupted_def
      first_inline_data_def first_def)


theorem interruption_clears_playback_witness:
  "message_interrupted interrupted_message \<and>
   onmessage pcm24k 1
     interrupted_message
     (run pcm24k [Message 0 (audio_message [65, 65]), Message (1/4) (audio_message [66])] connected)
   = \<lparr>outputAudioContext = True, outputNode = True, nextStartTime = 0,
       sources = [], created = 2,
       playback = [\<lparr>calledAt = 0, node = \<lparr>node_id = 0, buffer = pcm24k [65, 65], startedAt = 0\<rparr>\<rparr>,
                   \<lparr>calledAt = 1/4, node = \<lparr>node_id = 1, buffer = pcm24k [66], startedAt = 1/2\<rparr>\<rparr>],
       stopped = [0, 1]\<rparr>"
proof -
  have a: "message_interrupted interrupted_message"
    by (simp add: message_interrupted_def interrupted_message_def)
  have b: "message_audio interrupted_message = None"
    by (simp add: message_audio_def interrupted_message_def first_inline_data_def)
  have c: "run pcm24k [Message 0 (audio_message [65, 65]), Message (1/4) (audio_message [66])] connected =
      \<lparr>outputAudioContext = True, outputNode = True, nextStartTime = 3/4,
       sources = [\<lparr>node_id = 0, buffer = pcm24k [65, 65], startedAt = 0\<rparr>,
                  \<lparr>node_id = 1, buffer = pcm24k [66], startedAt = 1/2\<rparr>],
       created = 2,
       playback = [\<lparr>calledAt = 0, node = \<lparr>node_id = 0, buffer = pcm24k [65, 65], startedAt = 0\<rparr>\<rparr>,
                   \<lparr>calledAt = 1/4, node = \<lparr>node_id = 1, buffer = pcm24k [66], startedAt = 1/2\<rparr>\<rparr>],
       stopped = []\<rparr>"
    by (simp add: run_Cons run_Nil connected_def onmessage_audio_message play_chunk_def Let_def
        duration_def pcm24k_def)
  from interruption_clears_playback [OF a, of pcm24k 1]
  show ?thesis using a
    by (simp add: c onmessage_def b interrupt_def)
qed

section \<open>Outbound frames\<close>

lemma fold_onaudioprocess:
  "fold (onaudioprocess createBlob) bufs sent = sent @ map createBlob bufs"
  by (induction bufs arbitrary: sent) (simp_all add: onaudioprocess_def)

lemma audioprocess_event_length:
  assumes "buf \<in> set (audioprocess_events n captured)"
  shows "length buf = n"
proof -
  from assms obtain i where i: "i < length captured div n"
    and buf: "buf = take n (drop (i * n) captured)"
    by (auto simp: audioprocess_events_def)
  have "Suc i \<le> length captured div n" using i by simp
  then have "Suc i * n \<le> (length captured div n) * n" by (rule mult_le_mono1)
  also have "\<dots> \<le> length captured" by simp
  finally have "n \<le> length captured - i * n" by simp
  then show ?thesis by (simp add: buf)
qed

text \<open>
  Claim C7. Every frame the capture pipeline sends is \<open>createBlob\<close> of one input buffer,
  one frame per \<open>audioprocess\<close> event, and every such buffer holds exactly 4096 samples,
  the buffer size the script processor was created with.
\<close>

theorem outbound_frames_fixed_size:
  "capture createBlob captured = map createBlob (audioprocess_events bufferSize captured) \<and>
   length (capture createBlob captured) = length captured div 4096 \<and>
   (\<forall>buf\<in>set (audioprocess_events bufferSize captured). length buf = 4096)"
proof (intro conjI ballI)
  show c: "capture createBlob captured = map createBlob (audioprocess_events bufferSize captured)"
    by (simp add: capture_def fold_onaudioprocess)
  show "length (capture createBlob captured) = length captured div 4096"
    unfolding c by (simp add: audioprocess_events_def bufferSize_def)
  show "length buf = 4096" if "buf \<in> set (audioprocess_events bufferSize captured)" for buf
    using audioprocess_event_length [OF that] by (simp only: bufferSize_def)
qed

theorem outbound_frames_fixed_size_witness:
  "capture length (replicate 9000 (0::int)) = [4096, 4096] \<and>
   audioprocess_events bufferSize (replicate 9000 (0::int))
     = [replicate 4096 0, replicate 4096 0] \<and>
   list_all (\<lambda>buf. length buf = 4096) (audioprocess_events bufferSize (replicate 9000 (0::int)))"
proof -
  have idx: "[0..<9000 div (4096::nat)] = [0, 1]"
    by (simp add: upt_conv_Cons)
  have ev: "audioprocess_events bufferSize (replicate 9000 (0::int))
      = [replicate 4096 0, replicate 4096 0]"
    unfolding audioprocess_events_def bufferSize_def length_replicate idx
    by simp
  have "capture length (replicate 9000 (0::int)) = [4096, 4096]"
    using outbound_frames_fixed_size [of length "replicate 9000 (0::int)"]
    unfolding ev by simp
  then show ?thesis unfolding ev by simp
qed

end
